theory Spec2Isabelle
  imports Main "HOL-Library.Word" "HOL-Library.Char_ord"
begin

unbundle bit_operations_syntax

section \<open>save.c: the run-length codec of solutions\<close>

text \<open>
  A C string is a \<open>string\<close>; the end of the list stands for the terminating NUL.
  A solution file is the list of its bytes. Allocation is the one effect of the
  environment that the decoder depends on: \<open>mem_ok n\<close> tells whether a request
  for a block of \<open>n\<close> bytes (\<open>malloc\<close>, \<open>realloc\<close>) succeeds.
\<close>

type_synonym byte = "8 word"

definition solmove_ERR :: int where
  "solmove_ERR = 8"

definition xsb2byte :: "char \<Rightarrow> int" where
  "xsb2byte c =
     (if c = CHR ''u'' then 0
      else if c = CHR ''l'' then 1
      else if c = CHR ''d'' then 2
      else if c = CHR ''r'' then 3
      else if c = CHR ''U'' then 4
      else if c = CHR ''L'' then 5
      else if c = CHR ''D'' then 6
      else if c = CHR ''R'' then 7
      else solmove_ERR)"

definition byte2xsb :: "int \<Rightarrow> char" where
  "byte2xsb b =
     (if b = 0 then CHR ''u''
      else if b = 1 then CHR ''l''
      else if b = 2 then CHR ''d''
      else if b = 3 then CHR ''r''
      else if b = 4 then CHR ''U''
      else if b = 5 then CHR ''L''
      else if b = 6 then CHR ''D''
      else if b = 7 then CHR ''R''
      else CHR ''!'')"

text \<open>
  \<open>solution_save\<close>, the loop body's "dump the lastbyte chunk": \<open>fputc\<close> writes the
  low eight bits of \<open>(lastbytecount << 4) | lastbyte\<close>.
\<close>

definition dump_chunk :: "int \<Rightarrow> int \<Rightarrow> byte list" where
  "dump_chunk lastbyte lastbytecount =
     (if lastbytecount > 0 then [word_of_int (push_bit 4 lastbytecount OR lastbyte)] else [])"

text \<open>
  The \<open>for (;;)\<close> loop of \<open>solution_save\<close> with its two locals. At the end of the
  string \<open>*solution\<close> is NUL, which \<open>xsb2byte\<close> maps to \<open>solmove_ERR\<close>; any character
  outside the alphabet ends the loop the same way.
\<close>

fun solution_save_loop :: "int \<Rightarrow> int \<Rightarrow> string \<Rightarrow> byte list" where
  "solution_save_loop lastbyte lastbytecount [] =
     (if solmove_ERR = lastbyte \<and> lastbytecount < 15 then [] else dump_chunk lastbyte lastbytecount)"
| "solution_save_loop lastbyte lastbytecount (c # cs) =
     (let curbyte = xsb2byte c in
      if curbyte = lastbyte \<and> lastbytecount < 15 then
        (if curbyte = solmove_ERR then [] else solution_save_loop lastbyte (lastbytecount + 1) cs)
      else
        dump_chunk lastbyte lastbytecount @
        (if curbyte = solmove_ERR then [] else solution_save_loop curbyte 1 cs))"

text \<open>The bytes \<open>solution_save\<close> writes to the file it opened.\<close>

definition solution_save :: "string \<Rightarrow> byte list" where
  "solution_save solution = solution_save_loop (- 1) 0 solution"

text \<open>
  \<open>solution_load\<close>, the inner \<open>while (rlecounter > 0)\<close>: the state is the string
  decoded so far (\<open>solutionpos\<close> is its length) and \<open>solution_alloc\<close>. \<open>None\<close> is
  \<open>solution = NULL\<close>: a failed \<open>realloc\<close>, or the character \<open>!\<close> of a corrupted file.
\<close>

fun load_chunk :: "(nat \<Rightarrow> bool) \<Rightarrow> nat \<Rightarrow> int \<Rightarrow> string \<times> nat \<Rightarrow> (string \<times> nat) option" where
  "load_chunk mem_ok 0 bytebuff (solution, solution_alloc) = Some (solution, solution_alloc)"
| "load_chunk mem_ok (Suc rlecounter) bytebuff (solution, solution_alloc) =
     (if length solution + 1 \<ge> solution_alloc \<and> \<not> mem_ok (solution_alloc * 2) then None
      else
        let solution_alloc = (if length solution + 1 \<ge> solution_alloc
                              then solution_alloc * 2 else solution_alloc)
        in if byte2xsb bytebuff = CHR ''!'' then None
           else load_chunk mem_ok rlecounter bytebuff (solution @ [byte2xsb bytebuff], solution_alloc))"

text \<open>The outer loop: one byte of the file per round, until \<open>getc\<close> meets the end.\<close>

fun solution_load_loop :: "(nat \<Rightarrow> bool) \<Rightarrow> byte list \<Rightarrow> string \<times> nat \<Rightarrow> (string \<times> nat) option" where
  "solution_load_loop mem_ok [] st = Some st"
| "solution_load_loop mem_ok (b # bs) st =
     (let rlecounter = unat (drop_bit 4 b);
          bytebuff = uint (b AND 15)
      in case load_chunk mem_ok rlecounter bytebuff st of
           None \<Rightarrow> None
         | Some st' \<Rightarrow> solution_load_loop mem_ok bs st')"

text \<open>
  \<open>solution_load\<close> on the content of the file it found (\<open>None\<close>: no file could be
  opened): \<open>malloc\<close> of 16 bytes, the loop, and \<open>strdup\<close> of the decoded string. The
  result \<open>None\<close> is the NULL pointer.
\<close>

definition solution_load :: "(nat \<Rightarrow> bool) \<Rightarrow> byte list option \<Rightarrow> string option" where
  "solution_load mem_ok file =
     (case file of
        None \<Rightarrow> None
      | Some bytes \<Rightarrow>
          if \<not> mem_ok 16 then None
          else
            (case solution_load_loop mem_ok bytes ([], 16) of
               None \<Rightarrow> None
             | Some (solution, solution_alloc) \<Rightarrow>
                 if mem_ok (length solution + 1) then Some solution else None))"


section \<open>sok_core.h: levels and game states\<close>

definition field_floor :: byte where "field_floor = 1"
definition field_atom :: byte where "field_atom = 2"
definition field_goal :: byte where "field_goal = 4"
definition field_wall :: byte where "field_wall = 8"

text \<open>
  \<open>struct sokgame\<close>. The array \<open>field[64][64]\<close> is a function of the two indices
  (\<open>field game x y\<close> is \<open>game->field[x][y]\<close>); the array itself is the part with both
  indices in \<open>0..63\<close>, and what C would read at an index outside of it is whatever value
  the function has there, so a statement proved for every \<open>field\<close> holds for every
  content of the memory around the array. The positions are C \<open>int\<close>s, far from their
  limits, and are integers here. The comment buffer is not part of the model.
\<close>

record sokgame =
  field_width :: nat
  field_height :: nat
  field :: "int \<Rightarrow> int \<Rightarrow> byte"
  positionx :: int
  positiony :: int
  level :: nat
  crc64 :: "64 word"
  crc32_106 :: "32 word"
  solution :: "string option"

text \<open>
  \<open>struct sokgamestates\<close>. \<open>history\<close> is a pointer to a NUL-terminated buffer:
  \<open>None\<close> is NULL, \<open>Some h\<close> a buffer holding the string \<open>h\<close>.
\<close>

record sokgamestates =
  angle :: int
  history :: "string option"
  historyallocsize :: nat

datatype SOKMOVE = sokmoveNONE | sokmoveUP | sokmoveLEFT | sokmoveDOWN | sokmoveRIGHT

definition sokmove_pushed :: int where "sokmove_pushed = 1"
definition sokmove_ongoal :: int where "sokmove_ongoal = 2"
definition sokmove_solved :: int where "sokmove_solved = 4"

section \<open>sok_core.c: histories, the solved check, moves and undo\<close>

definition ERR_UNDEFINED :: int where "ERR_UNDEFINED = - 1"
definition ERR_LEVEL_TOO_HIGH :: int where "ERR_LEVEL_TOO_HIGH = - 2"
definition ERR_LEVEL_TOO_LARGE :: int where "ERR_LEVEL_TOO_LARGE = - 3"
definition ERR_LEVEL_TOO_SMALL :: int where "ERR_LEVEL_TOO_SMALL = - 4"
definition ERR_MEM_ALLOC_FAILED :: int where "ERR_MEM_ALLOC_FAILED = - 5"
definition ERR_NO_LEVEL_DATA_FOUND :: int where "ERR_NO_LEVEL_DATA_FOUND = - 6"
definition ERR_TOO_MANY_LEVELS_IN_SET :: int where "ERR_TOO_MANY_LEVELS_IN_SET = - 7"
definition ERR_UNABLE_TO_OPEN_FILE :: int where "ERR_UNABLE_TO_OPEN_FILE = - 8"
definition ERR_PLAYER_POS_UNDEFINED :: int where "ERR_PLAYER_POS_UNDEFINED = - 9"

definition sok_history_getlen :: "string option \<Rightarrow> nat" where
  "sok_history_getlen hist = (case hist of None \<Rightarrow> 0 | Some h \<Rightarrow> length h)"

definition sok_history_getpushes :: "string option \<Rightarrow> nat" where
  "sok_history_getpushes hist =
     (case hist of
        None \<Rightarrow> 0
      | Some h \<Rightarrow> length (filter (\<lambda>c. CHR ''A'' \<le> c \<and> c \<le> CHR ''Z'') h))"

text \<open>
  The two loops of \<open>sok_checksolution\<close>, which return 0 at the first goal without an
  atom: \<open>y\<close> runs below \<open>field_height\<close>, \<open>x\<close> below \<open>field_width\<close>.
\<close>

definition unfilled_goal :: "sokgame \<Rightarrow> bool" where
  "unfilled_goal game =
     list_ex (\<lambda>y. list_ex (\<lambda>x. field game (int x) (int y) AND field_goal \<noteq> 0 \<and>
                                field game (int x) (int y) AND field_atom = 0)
                    [0..<field_width game])
             [0..<field_height game]"

text \<open>The value \<open>sok_checksolution\<close> returns; \<open>states = None\<close> is the NULL argument.\<close>

definition sok_checksolution :: "sokgame \<Rightarrow> sokgamestates option \<Rightarrow> int" where
  "sok_checksolution game states =
     (if unfilled_goal game then 0
      else case states of
             None \<Rightarrow> 0
           | Some st \<Rightarrow> if sok_history_getpushes (history st) = 0 then 0 else 1)"

text \<open>
  The effect of \<open>sok_checksolution\<close> outside of the two structures: the history it
  hands to \<open>solution_save\<close> when the level is solved by a better solution than the
  stored one, if it does. \<open>sok_move\<close> makes this call once, at its end, in a dry run
  as in an authoritative call.
\<close>

definition sok_checksolution_saves :: "sokgame \<Rightarrow> sokgamestates option \<Rightarrow> string option" where
  "sok_checksolution_saves game states =
     (case states of
        None \<Rightarrow> None
      | Some st \<Rightarrow>
          if sok_checksolution game states = 0 then None
          else
            let bestscorelen = sok_history_getlen (solution game);
                bestscorepushes = sok_history_getpushes (solution game);
                myscorelen = sok_history_getlen (history st);
                myscorepushes = sok_history_getpushes (history st)
            in if bestscorelen < 1 \<or> bestscorelen > myscorelen \<or>
                  (bestscorelen = myscorelen \<and> bestscorepushes > myscorepushes)
               then history st else None)"

text \<open>The \<open>switch (dir)\<close> of \<open>sok_move\<close>: \<open>(vectorx, vectory, angle, historychar)\<close>.\<close>

fun move_dir :: "SOKMOVE \<Rightarrow> int \<times> int \<times> int \<times> char" where
  "move_dir sokmoveNONE = (0, - 1, 0, CHR ''u'')"
| "move_dir sokmoveUP = (0, - 1, 0, CHR ''u'')"
| "move_dir sokmoveRIGHT = (1, 0, 90, CHR ''r'')"
| "move_dir sokmoveDOWN = (0, 1, 180, CHR ''d'')"
| "move_dir sokmoveLEFT = (- 1, 0, 270, CHR ''l'')"

definition set_field :: "sokgame \<Rightarrow> int \<Rightarrow> int \<Rightarrow> byte \<Rightarrow> sokgame" where
  "set_field game x y v = game\<lparr>field := (field game)(x := (field game x)(y := v))\<rparr>"

text \<open>
  \<open>sok_move\<close>: the returned value with the two structures as the call leaves them.
  \<open>mem_ok n\<close> tells whether \<open>realloc\<close> gives a block of \<open>n\<close> bytes. The result \<open>None\<close>
  is for what C leaves undefined: the write of the move through a NULL \<open>history\<close>, and
  a NULL \<open>history\<close> that \<open>realloc\<close> replaces by a block of uninitialised bytes.
  \<open>size_t\<close> values are natural numbers (no buffer comes near \<open>SIZE_MAX\<close>).
\<close>

definition sok_move ::
  "(nat \<Rightarrow> bool) \<Rightarrow> sokgame \<Rightarrow> SOKMOVE \<Rightarrow> int \<Rightarrow> sokgamestates \<Rightarrow>
     (int \<times> sokgame \<times> sokgamestates) option" where
  "sok_move mem_ok game dir validitycheck states =
     (let movescount = sok_history_getlen (history states);
          grow = (movescount + 3 \<ge> historyallocsize states);
          states = (if grow then states\<lparr>historyallocsize := historyallocsize states * 2\<rparr>
                    else states)
      in
      if grow \<and> \<not> mem_ok (historyallocsize states) then
        Some (ERR_MEM_ALLOC_FAILED, game, states\<lparr>history := None\<rparr>)
      else if grow \<and> history states = None then None
      else
        let alreadysolved = sok_checksolution game None;
            x = positionx game;
            y = positiony game;
            (vectorx, vectory, ang, historychar) = move_dir dir;
            states = states\<lparr>angle := ang\<rparr>
        in
        if y < 1 then Some (- 1, game, states)
        else if field game (x + vectorx) (y + vectory) AND field_wall \<noteq> 0 then
          Some (- 1, game, states)
        else
          let atom = (field game (x + vectorx) (y + vectory) AND field_atom \<noteq> 0) in
          if atom \<and> alreadysolved \<noteq> 0 then Some (- 1, game, states)
          else if atom \<and> (y + vectory < 1 \<or> y + vectory > 62 \<or>
                           x + vectorx < 1 \<or> x + vectorx > 62) then Some (- 1, game, states)
          else if atom \<and> field game (x + vectorx * 2) (y + vectory * 2) AND
                            (field_wall OR field_atom) \<noteq> 0 then Some (- 1, game, states)
          else
            let res = (if atom then
                         (if field game (x + vectorx * 2) (y + vectory * 2) AND field_goal \<noteq> 0
                          then sokmove_pushed OR sokmove_ongoal else sokmove_pushed)
                       else 0);
                historychar = (if atom \<and> validitycheck = 0
                               then char_of (of_char historychar - (32 :: int))
                               else historychar);
                game = (if atom \<and> validitycheck = 0 then
                          (let game = set_field game (x + vectorx) (y + vectory)
                                        (field game (x + vectorx) (y + vectory) AND NOT field_atom)
                           in set_field game (x + vectorx * 2) (y + vectory * 2)
                                (field game (x + vectorx * 2) (y + vectory * 2) OR field_atom))
                        else game)
            in
            if validitycheck = 0 then
              (case history states of
                 None \<Rightarrow> None
               | Some h \<Rightarrow>
                   let states = states\<lparr>history := Some (take movescount h @ [historychar])\<rparr>;
                       game = game\<lparr>positiony := positiony game + vectory\<rparr>;
                       game = game\<lparr>positionx := positionx game + vectorx\<rparr>
                   in Some (if alreadysolved = 0 \<and> sok_checksolution game (Some states) \<noteq> 0
                            then res OR sokmove_solved else res, game, states))
            else
              Some (if alreadysolved = 0 \<and> sok_checksolution game (Some states) \<noteq> 0
                    then res OR sokmove_solved else res, game, states))"

text \<open>
  \<open>sok_undo\<close>. The character read is the last one of the history; the \<open>switch\<close>
  leaves the vector at \<open>(0, 0)\<close> and the angle as it is for any other character.
\<close>

definition undo_dir :: "char \<Rightarrow> int \<Rightarrow> int \<times> int \<times> int" where
  "undo_dir c ang =
     (if c = CHR ''u'' \<or> c = CHR ''U'' then (0, 1, 0)
      else if c = CHR ''r'' \<or> c = CHR ''R'' then (- 1, 0, 90)
      else if c = CHR ''d'' \<or> c = CHR ''D'' then (0, - 1, 180)
      else if c = CHR ''l'' \<or> c = CHR ''L'' then (1, 0, 270)
      else (0, 0, ang))"

definition sok_undo :: "sokgame \<Rightarrow> sokgamestates \<Rightarrow> sokgame \<times> sokgamestates" where
  "sok_undo game states =
     (let movescount = sok_history_getlen (history states) in
      if movescount < 1 then (game, states)
      else
        case history states of
          None \<Rightarrow> (game, states)
        | Some h \<Rightarrow>
            let movescount = movescount - 1;
                c = h ! movescount;
                (movex, movey, ang) = undo_dir c (angle states);
                states = states\<lparr>angle := ang\<rparr>;
                game = (if CHR ''A'' \<le> c \<and> c \<le> CHR ''Z'' then
                          (let game = set_field game (positionx game - movex) (positiony game - movey)
                                        (field game (positionx game - movex) (positiony game - movey)
                                           AND NOT field_atom)
                           in set_field game (positionx game) (positiony game)
                                (field game (positionx game) (positiony game) OR field_atom))
                        else game);
                game = game\<lparr>positionx := positionx game + movex\<rparr>;
                game = game\<lparr>positiony := positiony game + movey\<rparr>
            in (game, states\<lparr>history := Some (take movescount h)\<rparr>))"

text \<open>
  A sequence of authoritative moves (\<open>validitycheck = 0\<close>) of which every one returns a
  non-negative value, and \<open>sok_undo\<close> called a number of times.
\<close>

fun successful_moves ::
  "(nat \<Rightarrow> bool) \<Rightarrow> SOKMOVE list \<Rightarrow> sokgame \<times> sokgamestates \<Rightarrow> (sokgame \<times> sokgamestates) option" where
  "successful_moves mem_ok [] gs = Some gs"
| "successful_moves mem_ok (d # ds) gs =
     (case sok_move mem_ok (fst gs) d 0 (snd gs) of
        None \<Rightarrow> None
      | Some (r, game, states) \<Rightarrow>
          if r \<ge> 0 then successful_moves mem_ok ds (game, states) else None)"

fun undo_times :: "nat \<Rightarrow> sokgame \<times> sokgamestates \<Rightarrow> sokgame \<times> sokgamestates" where
  "undo_times 0 gs = gs"
| "undo_times (Suc n) gs = undo_times n (sok_undo (fst gs) (snd gs))"


section \<open>sok_core.c: reading a level\<close>

text \<open>
  The buffer \<open>*memptr\<close> is the list of the bytes in front of the terminating NUL, the
  end of the list being that NUL (the loops below read nothing after it, nor after a
  NUL inside the buffer). A byte is read as a C \<open>int\<close>: \<open>ch c\<close> is the code of the
  character \<open>c\<close>.
\<close>

definition ch :: "char \<Rightarrow> int" where
  "ch c = of_char c"

fun readbytefrommem :: "string \<Rightarrow> int \<times> string" where
  "readbytefrommem [] = (- 1, [])"
| "readbytefrommem (c # cs) = (if ch c = 0 then (- 1, cs) else (ch c, cs))"

lemma readbytefrommem_shorter:
  "readbytefrommem m = (b, m') \<Longrightarrow> 0 \<le> b \<Longrightarrow> length m' < length m"
  by (cases m) (auto split: if_splits)

lemma readbytefrommem_le:
  "readbytefrommem m = (b, m') \<Longrightarrow> length m' \<le> length m"
  by (cases m) (auto split: if_splits)

text \<open>
  \<open>readRLEbyte\<close>: the loop over the digits in front of a symbol. The result is
  \<open>(rleprefix, bytebuff, memptr)\<close>. The \<open>int\<close> \<open>rleprefix\<close> is an integer here: a
  repeat count of ten digits or more overflows it in C, which the model leaves out.
\<close>

function readRLEbyte_loop :: "int \<Rightarrow> string \<Rightarrow> int \<times> int \<times> string" where
  "readRLEbyte_loop rleprefix mem =
     (case readbytefrommem mem of (b, mem') \<Rightarrow>
        if b < 0 then (- 1, b, mem')
        else if b \<ge> ch CHR ''0'' \<and> b \<le> ch CHR ''9'' then
          readRLEbyte_loop ((if rleprefix > 0 then rleprefix * 10 else 0) + (b - ch CHR ''0'')) mem'
        else (if rleprefix < 0 then 1 else rleprefix, b, mem'))"
  by pat_completeness auto
termination
  by (relation "measure (\<lambda>(r, m). length m)") (auto dest: readbytefrommem_shorter[OF sym])

declare readRLEbyte_loop.simps [simp del]

definition readRLEbyte :: "string \<Rightarrow> int \<times> int \<times> string" where
  "readRLEbyte mem = readRLEbyte_loop (- 1) mem"

text \<open>
  The loop of the \<open>default\<close> case of \<open>loadlevelfromfile\<close>, which reads a comment up
  to the end of its line: \<open>(bytebuff, end of file met, memptr)\<close>. The text of the
  comment, which goes to \<open>precomment\<close> or \<open>postcomment\<close>, is not part of the model.
\<close>

function skip_comment :: "string \<Rightarrow> int \<times> bool \<times> string" where
  "skip_comment mem =
     (case readbytefrommem mem of (b, mem') \<Rightarrow>
        if b = ch CHR 0x0D then skip_comment mem'
        else if b = ch CHR 0x0A then (b, False, mem')
        else if b < 0 then (b, True, mem')
        else skip_comment mem')"
  by pat_completeness auto
termination
  by (relation "measure length") (auto dest: readbytefrommem_shorter[OF sym] simp: ch_def)

declare skip_comment.simps [simp del]

text \<open>The locals of \<open>loadlevelfromfile\<close> that its loops change, with the level.\<close>

record loadstate =
  ls_game :: sokgame
  ls_x :: nat
  ls_y :: nat
  ls_leveldatastarted :: int
  ls_endoffile :: int
  ls_memptr :: string
  ls_bytebuff :: int

text \<open>\<open>game->field[x + 1][y + 1] |= flag\<close>.\<close>

definition or_field :: "sokgame \<Rightarrow> nat \<Rightarrow> nat \<Rightarrow> byte \<Rightarrow> sokgame" where
  "or_field game x y flag =
     set_field game (int x + 1) (int y + 1) (field game (int x + 1) (int y + 1) OR flag)"

text \<open>The \<open>switch (bytebuff)\<close> of \<open>loadlevelfromfile\<close>, for one repetition of a symbol.\<close>

definition level_char :: "loadstate \<Rightarrow> loadstate" where
  "level_char st =
     (let b = ls_bytebuff st; game = ls_game st; x = ls_x st; y = ls_y st in
      if b = ch CHR '' '' \<or> b = ch CHR ''-'' \<or> b = ch CHR ''_'' then
        st\<lparr>ls_game := or_field game x y field_floor, ls_x := x + 1\<rparr>
      else if b = ch CHR ''#'' then
        st\<lparr>ls_game := or_field game x y field_wall, ls_x := x + 1\<rparr>
      else if b = ch CHR ''@'' then
        st\<lparr>ls_game := (or_field game x y field_floor)\<lparr>positionx := int x, positiony := int y\<rparr>,
           ls_x := x + 1\<rparr>
      else if b = ch CHR ''*'' then
        st\<lparr>ls_game := or_field (or_field game x y field_goal) x y field_atom, ls_x := x + 1\<rparr>
      else if b = ch CHR ''$'' then
        st\<lparr>ls_game := or_field game x y field_atom, ls_x := x + 1\<rparr>
      else if b = ch CHR ''+'' then
        st\<lparr>ls_game := or_field (game\<lparr>positionx := int x, positiony := int y\<rparr>) x y field_goal,
           ls_x := x + 1\<rparr>
      else if b = ch CHR ''.'' then
        st\<lparr>ls_game := or_field game x y field_goal, ls_x := x + 1\<rparr>
      else if b = ch CHR 0x0A \<or> b = ch CHR ''|'' then
        st\<lparr>ls_y := (if ls_leveldatastarted st \<noteq> 0 then y + 1 else y), ls_x := 0\<rparr>
      else if b = ch CHR 0x0D then st
      else
        (case skip_comment (ls_memptr st) of (b', eof, mem') \<Rightarrow>
           st\<lparr>ls_bytebuff := b', ls_memptr := mem',
              ls_endoffile := (if eof then 1 else ls_endoffile st),
              ls_leveldatastarted := (if ls_leveldatastarted st \<noteq> 0 then - 1
                                      else ls_leveldatastarted st)\<rparr>))"

text \<open>
  What follows the \<open>switch\<close> in the body of the inner \<open>for\<close> loop:
  \<open>if (x > 0) leveldatastarted = 1\<close>, and the two updates of the extents.
\<close>

definition mark_started :: "loadstate \<Rightarrow> loadstate" where
  "mark_started st = (if ls_x st > 0 then st\<lparr>ls_leveldatastarted := 1\<rparr> else st)"

definition track_extent :: "loadstate \<Rightarrow> loadstate" where
  "track_extent st =
     (let game = ls_game st;
          game = (if ls_x st > field_width game then game\<lparr>field_width := ls_x st\<rparr> else game);
          game = (if ls_y st \<ge> field_height game \<and> ls_x st > 0
                  then game\<lparr>field_height := ls_y st + 1\<rparr> else game)
      in st\<lparr>ls_game := game\<rparr>)"

text \<open>
  The inner \<open>for (; rleprefix > 0; rleprefix--)\<close>: \<open>Some err\<close> is \<open>return(err)\<close>, and
  the state is the one the loop is left with.
\<close>

fun rle_loop :: "nat \<Rightarrow> loadstate \<Rightarrow> int option \<times> loadstate" where
  "rle_loop 0 st = (None, st)"
| "rle_loop (Suc rleprefix) st =
     (let st = level_char st in
      if ls_leveldatastarted st < 0 \<or> ls_endoffile st \<noteq> 0 then (None, st)
      else
        let st = mark_started st in
        if ls_x st \<ge> 62 then (Some ERR_LEVEL_TOO_LARGE, st)
        else if ls_y st \<ge> 62 then (Some ERR_LEVEL_TOO_HIGH, st)
        else rle_loop rleprefix (track_extent st))"

lemma skip_comment_le: "length (snd (snd (skip_comment m))) \<le> length m"
proof (induction m rule: length_induct)
  case (1 mem)
  obtain b0 m0 where r: "readbytefrommem mem = (b0, m0)" by (cases "readbytefrommem mem")
  have le: "length m0 \<le> length mem" using readbytefrommem_le[OF r] .
  show ?case
  proof (cases "b0 = ch CHR 0x0D \<or> (b0 \<noteq> ch CHR 0x0A \<and> \<not> b0 < 0)")
    case True
    then have "0 \<le> b0" by (auto simp: ch_def)
    then have lt: "length m0 < length mem" using readbytefrommem_shorter[OF r] by simp
    have "skip_comment mem = skip_comment m0"
      using r True by (subst skip_comment.simps) auto
    with 1 lt show ?thesis by (metis le_trans less_imp_le)
  next
    case False
    then show ?thesis using r le
      by (subst skip_comment.simps) (auto split: if_splits)
  qed
qed

lemma level_char_le: "length (ls_memptr (level_char st)) \<le> length (ls_memptr st)"
  using skip_comment_le[of "ls_memptr st"]
  by (auto simp: level_char_def Let_def split: prod.splits)

lemma memptr_mark_started [simp]: "ls_memptr (mark_started st) = ls_memptr st"
  by (simp add: mark_started_def)

lemma memptr_track_extent [simp]: "ls_memptr (track_extent st) = ls_memptr st"
  by (simp add: track_extent_def Let_def)

lemma rle_loop_le: "length (ls_memptr (snd (rle_loop n st))) \<le> length (ls_memptr st)"
proof (induction n arbitrary: st)
  case 0
  then show ?case by simp
next
  case (Suc n)
  have "length (ls_memptr (snd (rle_loop n (track_extent (mark_started (level_char st))))))
          \<le> length (ls_memptr st)"
    using Suc.IH[of "track_extent (mark_started (level_char st))"] level_char_le[of st] by simp
  then show ?case using level_char_le[of st] by (simp add: Let_def)
qed

lemma readRLEbyte_loop_len:
  "readRLEbyte_loop r m = (p, b, m') \<Longrightarrow>
     length m' \<le> length m \<and> (0 \<le> p \<longrightarrow> length m' < length m)"
proof (induction m arbitrary: r rule: length_induct)
  case (1 mem)
  obtain b0 m0 where r: "readbytefrommem mem = (b0, m0)" by (cases "readbytefrommem mem")
  have le: "length m0 \<le> length mem" using readbytefrommem_le[OF r] .
  show ?case
  proof (cases "b0 < 0")
    case True
    then show ?thesis using "1.prems" r le by (subst (asm) readRLEbyte_loop.simps) auto
  next
    case False
    then have lt: "length m0 < length mem" using readbytefrommem_shorter[OF r] by simp
    show ?thesis
    proof (cases "b0 \<ge> ch CHR ''0'' \<and> b0 \<le> ch CHR ''9''")
      case True
      then have "readRLEbyte_loop r mem =
         readRLEbyte_loop ((if r > 0 then r * 10 else 0) + (b0 - ch CHR ''0'')) m0"
        using r False by (subst readRLEbyte_loop.simps) auto
      with 1 lt show ?thesis by (metis less_trans less_imp_le le_trans)
    next
      case F2: False
      then show ?thesis using "1.prems" r False lt
        by (subst (asm) readRLEbyte_loop.simps) (auto split: if_splits)
    qed
  qed
qed

lemma readRLEbyte_loop_shorter:
  "readRLEbyte_loop r m = (p, b, m') \<Longrightarrow> 0 \<le> p \<Longrightarrow> length m' < length m"
  using readRLEbyte_loop_len by blast

lemma level_loop_shorter:
  assumes "readRLEbyte m = (p, b, m')" "\<not> p < 0" "rle_loop n st1 = (r, st2)" "ls_memptr st1 = m'"
  shows "length (ls_memptr st2) < length m"
proof -
  have "length m' < length m"
    using readRLEbyte_loop_shorter[of "- 1" m p b m'] assms(1,2) by (simp add: readRLEbyte_def)
  moreover have "length (ls_memptr st2) \<le> length m'"
    using rle_loop_le[of n st1] assms(3,4) by simp
  ultimately show ?thesis by simp
qed

text \<open>
  The outer \<open>for (;;)\<close> of \<open>loadlevelfromfile\<close>. The result is the state the loop
  ends in, with \<open>Some err\<close> when the function returns \<open>err\<close> from inside the loop.
\<close>

function level_loop :: "loadstate \<Rightarrow> int option \<times> loadstate" where
  "level_loop st =
     (case readRLEbyte (ls_memptr st) of (rleprefix, b, mem') \<Rightarrow>
        let st = st\<lparr>ls_bytebuff := b, ls_memptr := mem',
                   ls_endoffile := (if rleprefix < 0 then 1 else ls_endoffile st)\<rparr>
        in if ls_endoffile st \<noteq> 0 then (None, st)
           else
             (case rle_loop (nat rleprefix) st of
                (Some err, st) \<Rightarrow> (Some err, st)
              | (None, st) \<Rightarrow>
                  if ls_leveldatastarted st < 0 \<or> ls_endoffile st \<noteq> 0 then (None, st)
                  else level_loop st))"
  by pat_completeness auto
termination
  apply (relation "measure (\<lambda>st. length (ls_memptr st))")
   apply simp
  apply (auto split: if_splits)
  apply (rule level_loop_shorter[OF sym _ sym])
     apply assumption+
  apply simp
  done

declare level_loop.simps [simp del]

text \<open>
  \<open>floodFillField\<close>, with the recursion of the source. It ends because every call that
  recurses has turned one cell of the array from \<open>field_floor\<close> to 0.
\<close>

definition floor_cells :: "sokgame \<Rightarrow> (int \<times> int) set" where
  "floor_cells game =
     {(x, y). 0 \<le> x \<and> x < 64 \<and> 0 \<le> y \<and> y < 64 \<and> field game x y = field_floor}"

function floodFillField :: "sokgame \<Rightarrow> int \<Rightarrow> int \<Rightarrow> sokgame" where
  "floodFillField game x y =
     (if x \<ge> 0 \<and> x < 64 \<and> y \<ge> 0 \<and> y < 64 \<and> field game x y = field_floor then
        let game = set_field game x y 0;
            game = floodFillField game (x + 1) y;
            game = floodFillField game (x - 1) y;
            game = floodFillField game x (y + 1)
        in floodFillField game x (y - 1)
      else game)"
  by pat_completeness auto

lemma finite_floor_cells: "finite (floor_cells game)"
proof -
  have "floor_cells game \<subseteq> {0..<64} \<times> {0..<64}" by (auto simp: floor_cells_def)
  then show ?thesis by (rule finite_subset) simp
qed

lemma floor_cells_set_field:
  "(x, y) \<in> floor_cells game \<Longrightarrow> floor_cells (set_field game x y 0) = floor_cells game - {(x, y)}"
  by (auto simp: floor_cells_def set_field_def field_floor_def split: if_splits)

lemma card_floor_cells_set_field:
  "(x, y) \<in> floor_cells game \<Longrightarrow> card (floor_cells (set_field game x y 0)) < card (floor_cells game)"
  by (metis card_Diff1_less finite_floor_cells floor_cells_set_field)

lemma floodFill_dom_subset:
  "floodFillField_dom (game, x, y) \<Longrightarrow> floor_cells (floodFillField game x y) \<subseteq> floor_cells game"
proof (induction game x y rule: floodFillField.pinduct)
  case (1 game x y)
  show ?case
  proof (cases "x \<ge> 0 \<and> x < 64 \<and> y \<ge> 0 \<and> y < 64 \<and> field game x y = field_floor")
    case False
    then show ?thesis using 1(1) by (subst floodFillField.psimps) auto
  next
    case True
    define g1 where "g1 = set_field game x y 0"
    define g2 where "g2 = floodFillField g1 (x + 1) y"
    define g3 where "g3 = floodFillField g2 (x - 1) y"
    define g4 where "g4 = floodFillField g3 x (y + 1)"
    have r: "floodFillField game x y = floodFillField g4 x (y - 1)"
      using True 1(1) by (subst floodFillField.psimps) (auto simp: g1_def g2_def g3_def g4_def Let_def)
    have "(x, y) \<in> floor_cells game" using True by (simp add: floor_cells_def)
    then have s1: "floor_cells g1 \<subseteq> floor_cells game"
      by (simp add: g1_def floor_cells_set_field)
    have s2: "floor_cells g2 \<subseteq> floor_cells g1"
      unfolding g2_def g1_def using 1(2)[OF True refl] .
    have s3: "floor_cells g3 \<subseteq> floor_cells g2"
      unfolding g3_def g2_def g1_def using 1(3)[OF True refl refl] .
    have s4: "floor_cells g4 \<subseteq> floor_cells g3"
      unfolding g4_def g3_def g2_def g1_def using 1(4)[OF True refl refl refl] .
    have s5: "floor_cells (floodFillField g4 x (y - 1)) \<subseteq> floor_cells g4"
      unfolding g4_def g3_def g2_def g1_def using 1(5)[OF True refl refl refl refl] .
    show ?thesis using r s1 s2 s3 s4 s5 by auto
  qed
qed

termination floodFillField
proof (relation "measure (\<lambda>(game, x, y). card (floor_cells game))", goal_cases)
  case 1
  show ?case by simp
next
  case (2 game x y g1)
  then have "(x, y) \<in> floor_cells game" by (simp add: floor_cells_def)
  then show ?case using 2 by (simp add: card_floor_cells_set_field)
next
  case (3 game x y g1 g2)
  then have m: "(x, y) \<in> floor_cells game" by (simp add: floor_cells_def)
  have "floor_cells g2 \<subseteq> floor_cells g1" using 3 floodFill_dom_subset by simp
  then have "card (floor_cells g2) \<le> card (floor_cells g1)"
    by (rule card_mono[OF finite_floor_cells])
  moreover have "card (floor_cells g1) < card (floor_cells game)"
    using 3 m by (simp add: card_floor_cells_set_field)
  ultimately show ?case by simp
next
  case (4 game x y g1 g2 g3)
  then have m: "(x, y) \<in> floor_cells game" by (simp add: floor_cells_def)
  have "floor_cells g3 \<subseteq> floor_cells g2" "floor_cells g2 \<subseteq> floor_cells g1"
    using 4 floodFill_dom_subset by simp_all
  then have "card (floor_cells g3) \<le> card (floor_cells g1)"
    by (meson card_mono finite_floor_cells order_trans)
  moreover have "card (floor_cells g1) < card (floor_cells game)"
    using 4 m by (simp add: card_floor_cells_set_field)
  ultimately show ?case by simp
next
  case (5 game x y g1 g2 g3 g4)
  then have m: "(x, y) \<in> floor_cells game" by (simp add: floor_cells_def)
  have "floor_cells g4 \<subseteq> floor_cells g3" "floor_cells g3 \<subseteq> floor_cells g2" "floor_cells g2 \<subseteq> floor_cells g1"
    using 5 floodFill_dom_subset by simp_all
  then have "card (floor_cells g4) \<le> card (floor_cells g1)"
    by (meson card_mono finite_floor_cells order_trans)
  moreover have "card (floor_cells g1) < card (floor_cells game)"
    using 5 m by (simp add: card_floor_cells_set_field)
  ultimately show ?case by simp
qed

declare floodFillField.simps [simp del]


text \<open>
  The loops of \<open>loadlevelfromfile\<close> over the array: the fill with floor, the shift by
  \<open>(-1, -1)\<close>, and the two hashes. The CRC functions come from a library that is a
  parameter (\<open>crc64_feed\<close> is the function \<open>crc64\<close> of crc64.h).
\<close>

definition fill_floor :: "sokgame \<Rightarrow> sokgame" where
  "fill_floor game =
     fold (\<lambda>y game. fold (\<lambda>x game. set_field game (int x) (int y) field_floor) [0..<64] game)
       [0..<64] game"

definition shift_field :: "sokgame \<Rightarrow> sokgame" where
  "shift_field game =
     fold (\<lambda>y game.
             fold (\<lambda>x game. set_field game (int x) (int y) (field game (int x + 1) (int y + 1)))
               [0..<63] game)
       [0..<63] game"

record crclib =
  crc32_init :: "32 word"
  crc32_feed :: "32 word \<Rightarrow> byte list \<Rightarrow> 32 word"
  crc32_finish :: "32 word \<Rightarrow> 32 word"
  crc64_feed :: "64 word \<Rightarrow> byte list \<Rightarrow> 64 word"

definition legacy_crc32 :: "crclib \<Rightarrow> sokgame \<Rightarrow> 32 word" where
  "legacy_crc32 lib game =
     crc32_finish lib
       (fold (\<lambda>y crc. fold (\<lambda>x crc. crc32_feed lib crc [field game (int x) (int y)])
                         [0..<field_height game] crc)
          [0..<field_width game] (crc32_init lib))"

definition level_crc64 :: "crclib \<Rightarrow> sokgame \<Rightarrow> 64 word" where
  "level_crc64 lib game =
     fold (\<lambda>y crc. fold (\<lambda>x crc. crc64_feed lib crc [field game (int x) (int y)])
                       [0..<field_width game] crc)
       [0..<field_height game]
       (crc64_feed lib 0 [word_of_int (positionx game), word_of_int (positiony game)])"

text \<open>
  \<open>loadlevelfromfile\<close> on the structure \<open>game\<close> as it was allocated and the buffer
  at \<open>memptr\<close>: the returned value, the structure and the buffer position as the call
  leaves them. \<open>level_flooded\<close> is the level after the flood fill, before the shift.
\<close>

definition load_init :: "sokgame \<Rightarrow> string \<Rightarrow> loadstate" where
  "load_init game mem =
     \<lparr>ls_game = fill_floor (game\<lparr>positionx := - 1, positiony := - 1, field_width := 0,
                                 field_height := 0, solution := None\<rparr>),
      ls_x = 0, ls_y = 0, ls_leveldatastarted = 0, ls_endoffile = 0,
      ls_memptr = mem, ls_bytebuff = 0\<rparr>"

definition level_flooded :: "sokgame \<Rightarrow> string \<Rightarrow> sokgame" where
  "level_flooded game mem = floodFillField (ls_game (snd (level_loop (load_init game mem)))) 63 63"

definition loadlevelfromfile :: "crclib \<Rightarrow> sokgame \<Rightarrow> string \<Rightarrow> int \<times> sokgame \<times> string" where
  "loadlevelfromfile lib game mem =
     (case level_loop (load_init game mem) of
        (Some err, st) \<Rightarrow> (err, ls_game st, ls_memptr st)
      | (None, st) \<Rightarrow>
          let game = ls_game st in
          if positionx game < 0 then (ERR_PLAYER_POS_UNDEFINED, game, ls_memptr st)
          else if field_height game < 1 then (ERR_LEVEL_TOO_SMALL, game, ls_memptr st)
          else if field_width game < 1 then (ERR_LEVEL_TOO_SMALL, game, ls_memptr st)
          else if ls_leveldatastarted st = 0 then (ERR_NO_LEVEL_DATA_FOUND, game, ls_memptr st)
          else
            let game = floodFillField game 63 63;
                game = shift_field game;
                game = game\<lparr>crc32_106 := legacy_crc32 lib game\<rparr>;
                game = game\<lparr>crc64 := level_crc64 lib game\<rparr>
            in (if ls_endoffile st \<noteq> 0 then 1 else 0, game, ls_memptr st))"



text \<open>
  The cells handed to \<open>crc32_feed\<close>, in the order of the two loops that compute
  \<open>crc32_106\<close>: the outer index runs below \<open>field_width\<close> and is the second
  subscript, the inner one runs below \<open>field_height\<close> and is the first.
\<close>

definition legacy_cells :: "sokgame \<Rightarrow> byte list" where
  "legacy_cells game =
     concat (map (\<lambda>y. map (\<lambda>x. field game (int x) (int y)) [0..<field_height game])
               [0..<field_width game])"

text \<open>
  The claim's reading of the legacy hash: the same loops run over the grid as it is
  before the shift by \<open>(-1, -1)\<close>, that is, right after the flood fill.
\<close>

definition legacy_hash_spec :: "crclib \<Rightarrow> sokgame \<Rightarrow> string \<Rightarrow> 32 word" where
  "legacy_hash_spec lib game mem = legacy_crc32 lib (level_flooded game mem)"

text \<open>
  How one cell stands after a flood fill against how it stood before: unchanged, or a
  cell of the array that was exactly \<open>field_floor\<close> and is now 0.
\<close>

definition flooded_from :: "sokgame \<Rightarrow> sokgame \<Rightarrow> bool" where
  "flooded_from game game' \<longleftrightarrow>
     game' = game\<lparr>field := field game'\<rparr> \<and>
     (\<forall>a b. field game' a b = field game a b \<or>
            (0 \<le> a \<and> a < 64 \<and> 0 \<le> b \<and> b < 64 \<and>
             field game a b = field_floor \<and> field game' a b = 0))"

text \<open>
  Modelled from the spec: \<open>crc32.h\<close> (\<open>crc32_init\<close>, \<open>crc32_feed\<close>, \<open>crc32_finish\<close>)
  and the body of \<open>crc64\<close> are not under src/; the spec calls them a 32-bit CRC and a
  running 64-bit CRC seeded at 0 with no final XOR. Every statement about
  \<open>loadlevelfromfile\<close> is proved for an arbitrary \<open>crclib\<close>; \<open>std_crc\<close>, the bitwise
  reflected CRC-32 (polynomial \<open>EDB88320\<close>, initial value and final XOR \<open>FFFFFFFF\<close>)
  and a bitwise reflected CRC-64 (polynomial \<open>C96C5795D7870F42\<close>), is the instance taken
  where a closed example needs one.
\<close>

fun crc_bits :: "nat \<Rightarrow> 'a::len word \<Rightarrow> 'a word \<Rightarrow> 'a word" where
  "crc_bits 0 poly crc = crc"
| "crc_bits (Suc n) poly crc =
     crc_bits n poly (if bit crc 0 then drop_bit 1 crc XOR poly else drop_bit 1 crc)"

definition crc_bytes :: "'a::len word \<Rightarrow> 'a word \<Rightarrow> byte list \<Rightarrow> 'a word" where
  "crc_bytes poly crc bs = fold (\<lambda>b crc. crc_bits 8 poly (crc XOR ucast b)) bs crc"

definition std_crc :: crclib where
  "std_crc = \<lparr>crc32_init = 0xFFFFFFFF,
              crc32_feed = crc_bytes 0xEDB88320,
              crc32_finish = (\<lambda>crc. crc XOR 0xFFFFFFFF),
              crc64_feed = crc_bytes 0xC96C5795D7870F42\<rparr>"

section \<open>sok_core.c: loading a set of levels\<close>

text \<open>
  What \<open>sok_loadfile\<close> takes from its environment: the CRC library, the gzip
  decompressor \<open>ungz\<close> (\<open>None\<close> is NULL), \<open>malloc\<close> for the \<open>n\<close>-th level structure
  (\<open>None\<close> when it fails, otherwise the content the fresh block happens to have), the
  solution file \<open>solution_load\<close> finds for a level's CRC64, and \<open>mem_ok\<close> for the
  allocations of \<open>solution_load\<close>.
\<close>

record loadenv =
  env_crc :: crclib
  env_ungz :: "string \<Rightarrow> string option"
  env_newgame :: "nat \<Rightarrow> sokgame option"
  env_solfile :: "64 word \<Rightarrow> byte list option"
  env_mem_ok :: "nat \<Rightarrow> bool"

text \<open>\<open>isGz\<close> of gz.c, on a buffer of \<open>filelen = length mem\<close> bytes.\<close>

definition isGz :: "string \<Rightarrow> bool" where
  "isGz mem \<longleftrightarrow>
     \<not> (length mem < 16 \<or> ch (mem ! 0) \<noteq> 0x1F \<or> ch (mem ! 1) \<noteq> 0x8B) \<and>
     \<not> (ch (mem ! 2) \<noteq> 0 \<and> ch (mem ! 2) \<noteq> 8)"

text \<open>
  The level structures live in a store: the block of the \<open>n\<close>-th successful
  \<open>sok_allocgame\<close> has the address \<open>n\<close>, \<open>free\<close> removes a block from the store, and
  \<open>gamelist\<close> maps an index of the caller's array to the address stored there.
\<close>

type_synonym gamestore = "nat \<rightharpoonup> sokgame"
type_synonym gamelist = "nat \<rightharpoonup> nat"

definition sok_freegame :: "gamestore \<Rightarrow> nat option \<Rightarrow> gamestore" where
  "sok_freegame store game = (case game of None \<Rightarrow> store | Some a \<Rightarrow> store(a := None))"

definition sok_freefile :: "gamestore \<Rightarrow> gamelist \<Rightarrow> nat \<Rightarrow> gamestore" where
  "sok_freefile store gamelist gamescount =
     fold (\<lambda>x store. sok_freegame store (gamelist x)) [0..<gamescount] store"

lemma level_loop_unfold:
  assumes r: "readRLEbyte (ls_memptr st) = (p, b, m)"
    and st1: "st1 = st\<lparr>ls_bytebuff := b, ls_memptr := m,
                   ls_endoffile := (if p < 0 then 1 else ls_endoffile st)\<rparr>"
    and l: "rle_loop (nat p) st1 = (e, st2)"
  shows "level_loop st =
     (if ls_endoffile st1 \<noteq> 0 then (None, st1)
      else case e of
             Some err \<Rightarrow> (Some err, st2)
           | None \<Rightarrow> if ls_leveldatastarted st2 < 0 \<or> ls_endoffile st2 \<noteq> 0 then (None, st2)
                     else level_loop st2)"
  apply (subst level_loop.simps)
  apply (simp only: r prod.case Let_def st1[symmetric] l)
  done

lemma rle_loop_err: "rle_loop n st = (Some err, st') \<Longrightarrow> err < 0"
  by (induction n arbitrary: st)
     (auto simp: Let_def ERR_LEVEL_TOO_LARGE_def ERR_LEVEL_TOO_HIGH_def split: if_splits)

lemma level_loop_err: "level_loop st = (Some err, st') \<Longrightarrow> err < 0"
proof (induction st rule: level_loop.induct)
  case (1 st)
  obtain p b m where r: "readRLEbyte (ls_memptr st) = (p, b, m)"
    by (cases "readRLEbyte (ls_memptr st)")
  define st1 where "st1 = st\<lparr>ls_bytebuff := b, ls_memptr := m,
                   ls_endoffile := (if p < 0 then 1 else ls_endoffile st)\<rparr>"
  obtain e st2 where l: "rle_loop (nat p) st1 = (e, st2)" by (cases "rle_loop (nat p) st1")
  note u = level_loop_unfold[OF r st1_def l]
  show ?case
  proof (cases "ls_endoffile st1 \<noteq> 0 \<or> e \<noteq> None \<or> ls_leveldatastarted st2 < 0 \<or> ls_endoffile st2 \<noteq> 0")
    case True
    then show ?thesis using "1.prems" l rle_loop_err[of "nat p" st1 err st2]
      by (auto simp: u split: option.splits if_splits)
  next
    case False
    then have rec: "level_loop st = level_loop st2" by (simp add: u)
    show ?thesis
      by (rule "1.IH"[OF r[symmetric]]) (use False l rec "1.prems" in \<open>auto simp: st1_def\<close>)
  qed
qed

lemma level_loop_le: "length (ls_memptr (snd (level_loop st))) \<le> length (ls_memptr st)"
proof (induction st rule: level_loop.induct)
  case (1 st)
  obtain p b m where r: "readRLEbyte (ls_memptr st) = (p, b, m)"
    by (cases "readRLEbyte (ls_memptr st)")
  define st1 where "st1 = st\<lparr>ls_bytebuff := b, ls_memptr := m,
                   ls_endoffile := (if p < 0 then 1 else ls_endoffile st)\<rparr>"
  have m: "length m \<le> length (ls_memptr st)"
    using readRLEbyte_loop_len[of "- 1" "ls_memptr st" p b m] r by (simp add: readRLEbyte_def)
  have m1: "ls_memptr st1 = m" by (simp add: st1_def)
  obtain e st2 where l: "rle_loop (nat p) st1 = (e, st2)" by (cases "rle_loop (nat p) st1")
  have m2: "length (ls_memptr st2) \<le> length m"
    using rle_loop_le[of "nat p" st1] l by (simp add: st1_def)
  note u = level_loop_unfold[OF r st1_def l]
  show ?case
  proof (cases "ls_endoffile st1 \<noteq> 0 \<or> e \<noteq> None \<or> ls_leveldatastarted st2 < 0 \<or> ls_endoffile st2 \<noteq> 0")
    case True
    then show ?thesis using m m1 m2 by (auto simp: u split: option.splits)
  next
    case False
    then have rec: "level_loop st = level_loop st2" by (simp add: u)
    have "length (ls_memptr (snd (level_loop st2))) \<le> length (ls_memptr st2)"
      by (rule "1.IH"[OF r[symmetric]]) (use False l in \<open>auto simp: st1_def\<close>)
    then show ?thesis using rec m m2 by simp
  qed
qed

lemma level_loop_shorter_noeof:
  assumes "ls_endoffile st = 0" "ls_endoffile (snd (level_loop st)) = 0"
  shows "length (ls_memptr (snd (level_loop st))) < length (ls_memptr st)"
proof -
  obtain p b m where r: "readRLEbyte (ls_memptr st) = (p, b, m)"
    by (cases "readRLEbyte (ls_memptr st)")
  define st1 where "st1 = st\<lparr>ls_bytebuff := b, ls_memptr := m,
                   ls_endoffile := (if p < 0 then 1 else ls_endoffile st)\<rparr>"
  obtain e st2 where l: "rle_loop (nat p) st1 = (e, st2)" by (cases "rle_loop (nat p) st1")
  have m2: "length (ls_memptr st2) \<le> length m"
    using rle_loop_le[of "nat p" st1] l by (simp add: st1_def)
  note u = level_loop_unfold[OF r st1_def l]
  have p: "\<not> p < 0"
  proof
    assume "p < 0"
    then have "level_loop st = (None, st1)" by (simp add: u st1_def)
    then show False using assms(2) \<open>p < 0\<close> by (simp add: st1_def)
  qed
  then have m: "length m < length (ls_memptr st)"
    using readRLEbyte_loop_len[of "- 1" "ls_memptr st" p b m] r by (simp add: readRLEbyte_def)
  have "snd (level_loop st) = st2 \<or> snd (level_loop st) = snd (level_loop st2)"
    using p assms(1) by (auto simp: u st1_def split: option.splits)
  then show ?thesis using level_loop_le[of st2] m m2 by auto
qed

lemma loadlevelfromfile_shorter:
  assumes "loadlevelfromfile lib game mem = (0, game', mem')"
  shows "length mem' < length mem"
proof -
  obtain e st where l: "level_loop (load_init game mem) = (e, st)"
    by (cases "level_loop (load_init game mem)")
  have "ls_endoffile st = 0 \<and> mem' = ls_memptr st"
    using assms l level_loop_err[of "load_init game mem" 0 st]
    by (cases e) (auto simp: loadlevelfromfile_def Let_def ERR_PLAYER_POS_UNDEFINED_def ERR_LEVEL_TOO_SMALL_def
          ERR_NO_LEVEL_DATA_FOUND_def split: if_splits)
  then show ?thesis
    using level_loop_shorter_noeof[of "load_init game mem"] l by (simp add: load_init_def)
qed


text \<open>
  The \<open>for (level = 0; !errflag; level++)\<close> loop of \<open>sok_loadfile\<close>. \<open>nalloc\<close> counts
  the calls of \<open>sok_allocgame\<close>; \<open>level\<close> is an \<open>unsigned short\<close> and wraps at 65536.
  The result is \<open>(errflag, level, gamelist, store, game)\<close> as the loop leaves them,
  \<open>game\<close> being the pointer not yet stored in \<open>gamelist\<close> (\<open>None\<close> is NULL).
\<close>

function loadfile_loop ::
  "loadenv \<Rightarrow> int \<Rightarrow> nat \<Rightarrow> nat \<Rightarrow> string \<Rightarrow> gamelist \<Rightarrow> gamestore \<Rightarrow>
     int \<times> nat \<times> gamelist \<times> gamestore \<times> nat option" where
  "loadfile_loop env maxlevels lev nalloc mem gamelist store =
     (case env_newgame env nalloc of
        None \<Rightarrow> (ERR_MEM_ALLOC_FAILED, lev, gamelist, store, None)
      | Some fresh \<Rightarrow>
          (case loadlevelfromfile (env_crc env) fresh mem of (errflag, game, mem') \<Rightarrow>
             if errflag < 0 then
               (if lev \<noteq> 0 then 0 else errflag, lev, gamelist, store(nalloc \<mapsto> game), Some nalloc)
             else if int lev \<ge> maxlevels then
               (ERR_TOO_MANY_LEVELS_IN_SET, lev, gamelist, store(nalloc \<mapsto> game), Some nalloc)
             else
               let game = game\<lparr>level := (lev + 1) mod 65536,
                                solution := solution_load (env_mem_ok env)
                                              (env_solfile env (crc64 game))\<rparr>;
                   store = store(nalloc \<mapsto> game);
                   gamelist = gamelist(lev \<mapsto> nalloc)
               in if errflag \<noteq> 0 then
                    (errflag, (lev + 1) mod 65536, gamelist, store, None)
                  else loadfile_loop env maxlevels ((lev + 1) mod 65536) (nalloc + 1) mem'
                         gamelist store))"
  by pat_completeness auto
termination
  by (relation "measure (\<lambda>(env, maxlevels, lev, nalloc, mem, gamelist, store). length mem)")
     (auto dest: loadlevelfromfile_shorter[OF sym])

declare loadfile_loop.simps [simp del]

text \<open>
  \<open>sok_loadfile\<close> on the buffer it works on: the caller's \<open>memptr\<close> when \<open>gamelevel\<close>
  is NULL, otherwise what \<open>loadfile2mem\<close> read (\<open>None\<close>: NULL); \<open>filelen\<close> is the
  length of the buffer. The result is the returned value, the caller's array and the
  store of level structures as the call leaves them.
\<close>

definition sok_loadfile ::
  "loadenv \<Rightarrow> gamelist \<Rightarrow> int \<Rightarrow> string option \<Rightarrow> int \<times> gamelist \<times> gamestore" where
  "sok_loadfile env gamelist maxlevels buf =
     (case buf of
        None \<Rightarrow> (ERR_UNABLE_TO_OPEN_FILE, gamelist, Map.empty)
      | Some mem \<Rightarrow>
          if length mem = 0 then (ERR_UNABLE_TO_OPEN_FILE, gamelist, Map.empty)
          else
            (case (if isGz mem then env_ungz env mem else Some mem) of
               None \<Rightarrow> (ERR_UNABLE_TO_OPEN_FILE, gamelist, Map.empty)
             | Some mem \<Rightarrow>
                 (case loadfile_loop env maxlevels 0 0 mem gamelist Map.empty of
                    (errflag, lev, gamelist, store, game) \<Rightarrow>
                      let store = sok_freegame store game in
                      if errflag < 0 then (errflag, gamelist, sok_freefile store gamelist lev)
                      else (int lev, gamelist, store))))"

text \<open>
  The loop of \<open>sok_loadfile\<close>, entered on the buffer \<open>mem\<close> after \<open>nalloc\<close> calls of
  \<open>sok_allocgame\<close>, parses a level \<open>k\<close> iterations later: in each of the \<open>k\<close> first
  iterations \<open>sok_allocgame\<close> succeeds and \<open>loadlevelfromfile\<close> returns 0 (a level,
  and the buffer goes on), and in the next one \<open>sok_allocgame\<close> succeeds and
  \<open>loadlevelfromfile\<close> returns a level (0, or 1 at the end of the buffer).
\<close>

primrec parses_level_at :: "loadenv \<Rightarrow> nat \<Rightarrow> nat \<Rightarrow> string \<Rightarrow> bool" where
  "parses_level_at env 0 nalloc mem =
     (case env_newgame env nalloc of
        None \<Rightarrow> False
      | Some fresh \<Rightarrow> fst (loadlevelfromfile (env_crc env) fresh mem) \<ge> 0)"
| "parses_level_at env (Suc k) nalloc mem =
     (case env_newgame env nalloc of
        None \<Rightarrow> False
      | Some fresh \<Rightarrow>
          (case loadlevelfromfile (env_crc env) fresh mem of (errflag, game, mem') \<Rightarrow>
             errflag = 0 \<and> parses_level_at env k (nalloc + 1) mem'))"


section \<open>Concrete inputs\<close>

text \<open>
  A solved board: the player at \<open>(1, 1)\<close> has pushed the only atom onto the only goal
  at \<open>(2, 1)\<close>; the cell behind it, \<open>(3, 1)\<close>, is free floor.
\<close>

definition solved_game :: sokgame where
  "solved_game = \<lparr>field_width = 4, field_height = 2,
     field = (\<lambda>x y. if y = 1 then (if x = 2 then 7 else if 0 \<le> x \<and> x < 4 then 1 else 0) else 0),
     positionx = 1, positiony = 1, level = 1, crc64 = 0, crc32_106 = 0, solution = None\<rparr>"

definition solved_states :: sokgamestates where
  "solved_states = \<lparr>angle = 90, history = Some ''R'', historyallocsize = 64\<rparr>"

text \<open>
  A board one push away from being solved: the player at \<open>(0, 1)\<close>, an atom at
  \<open>(1, 1)\<close>, a goal at \<open>(2, 1)\<close>, and the states \<open>sok_resetstates\<close> builds.
\<close>

definition preview_game :: sokgame where
  "preview_game = \<lparr>field_width = 3, field_height = 2,
     field = (\<lambda>x y. if y = 1 then (if x = 1 then 3 else if x = 2 then 5 else 0) else 0),
     positionx = 0, positiony = 1, level = 1, crc64 = 0, crc32_106 = 0, solution = None\<rparr>"

definition preview_states :: sokgamestates where
  "preview_states = \<lparr>angle = 0, history = Some [], historyallocsize = 64\<rparr>"

text \<open>
  A zeroed level structure, an environment in which every allocation succeeds and no
  solution file exists, and three buffers: two levels in one file, the spec's one-row
  level under a row of walls, and (in the proofs) the one-row level itself.
\<close>

definition blank_game :: sokgame where
  "blank_game = \<lparr>field_width = 0, field_height = 0, field = (\<lambda>x y. 0),
     positionx = 0, positiony = 0, level = 0, crc64 = 0, crc32_106 = 0, solution = None\<rparr>"

definition std_env :: loadenv where
  "std_env = \<lparr>env_crc = std_crc, env_ungz = (\<lambda>mem. None), env_newgame = (\<lambda>n. Some blank_game),
     env_solfile = (\<lambda>crc. None), env_mem_ok = (\<lambda>n. True)\<rparr>"

definition two_levels :: string where
  "two_levels = ''@$.'' @ [CHR 0x0A] @ ''; second level'' @ [CHR 0x0A] @ ''@$.''"

definition walled_row1 :: string where
  "walled_row1 = ''###'' @ [CHR 0x0A] @ ''@$.''"

section \<open>The codec: round trip and corrupt files\<close>

lemma enum15: "1 \<le> n \<Longrightarrow> n \<le> 15 \<Longrightarrow> (n::int) \<in> {1,2,3,4,5,6,7,8,9,10,11,12,13,14,15}"
  by simp presburger
lemma enum7: "0 \<le> b \<Longrightarrow> b \<le> 7 \<Longrightarrow> (b::int) \<in> {0,1,2,3,4,5,6,7}"
  by simp presburger

lemma nib_hi: "1 \<le> n \<Longrightarrow> n \<le> 15 \<Longrightarrow> 0 \<le> b \<Longrightarrow> b \<le> 7 \<Longrightarrow>
  unat (drop_bit 4 (word_of_int (push_bit 4 n OR b) :: 8 word)) = nat n"
  using enum15[of n] enum7[of b] by auto

lemma nib_lo: "1 \<le> n \<Longrightarrow> n \<le> 15 \<Longrightarrow> 0 \<le> b \<Longrightarrow> b \<le> 7 \<Longrightarrow>
  uint ((word_of_int (push_bit 4 n OR b) :: 8 word) AND 15) = b"
  using enum15[of n] enum7[of b] by auto

lemma xsb2byte_alphabet:
  "c \<in> set ''uldrULDR'' \<Longrightarrow> 0 \<le> xsb2byte c \<and> xsb2byte c \<le> 7 \<and> byte2xsb (xsb2byte c) = c"
  by (auto simp: solmove_ERR_def xsb2byte_def byte2xsb_def)

lemma byte2xsb_valid: "0 \<le> b \<Longrightarrow> b \<le> 7 \<Longrightarrow> byte2xsb b \<noteq> CHR ''!''"
  using enum7[of b] by (auto simp: byte2xsb_def)

lemma byte2xsb_invalid: "\<not> (0 \<le> b \<and> b \<le> 7) \<Longrightarrow> byte2xsb b = CHR ''!''"
  by (auto simp: byte2xsb_def)

lemma load_chunk_valid:
  "\<forall>n. mem_ok n \<Longrightarrow> 0 \<le> b \<Longrightarrow> b \<le> 7 \<Longrightarrow>
   \<exists>a'. load_chunk mem_ok n b (sol, a) = Some (sol @ replicate n (byte2xsb b), a')"
proof (induction n arbitrary: sol a)
  case 0
  then show ?case by simp
next
  case (Suc n)
  have nz: "byte2xsb b \<noteq> CHR ''!''" using Suc.prems byte2xsb_valid by blast
  obtain a1 where a1: "load_chunk mem_ok (Suc n) b (sol, a) = load_chunk mem_ok n b (sol @ [byte2xsb b], a1)"
    using Suc.prems(1) nz by (simp add: Let_def)
  from Suc.IH[OF Suc.prems, of "sol @ [byte2xsb b]" a1] a1
  show ?case by (simp add: replicate_app_Cons_same)
qed

lemma load_chunk_pos:
  "0 < n \<Longrightarrow> load_chunk mem_ok n b (sol, a) =
     (if length sol + 1 \<ge> a \<and> \<not> mem_ok (a * 2) then None
      else if byte2xsb b = CHR ''!'' then None
      else load_chunk mem_ok (n - 1) b
             (sol @ [byte2xsb b], if length sol + 1 \<ge> a then a * 2 else a))"
  by (cases n) (simp_all add: Let_def)

lemma load_chunk_invalid:
  "\<not> (0 \<le> b \<and> b \<le> 7) \<Longrightarrow> 0 < n \<Longrightarrow> load_chunk mem_ok n b st = None"
  by (cases n; cases st) (simp_all add: byte2xsb_invalid Let_def)

lemma dump_decode:
  assumes ok: "\<forall>n. mem_ok n" and r: "0 \<le> lb" "lb \<le> 7" "1 \<le> cnt" "cnt \<le> 15"
  shows "\<exists>a'. solution_load_loop mem_ok (dump_chunk lb cnt @ bs) (sol, a) =
      solution_load_loop mem_ok bs (sol @ replicate (nat cnt) (byte2xsb lb), a')"
proof -
  obtain a' where "load_chunk mem_ok (nat cnt) lb (sol, a) = Some (sol @ replicate (nat cnt) (byte2xsb lb), a')"
    using load_chunk_valid[OF ok r(1,2)] by blast
  then show ?thesis using r
    by (auto simp del: load_chunk.simps simp add: dump_chunk_def nib_hi nib_lo)
qed

lemma save_loop_decode:
  assumes ok: "\<forall>n. mem_ok n"
  shows "set h \<subseteq> set ''uldrULDR'' \<Longrightarrow> 0 \<le> lb \<Longrightarrow> lb \<le> 7 \<Longrightarrow> 1 \<le> cnt \<Longrightarrow> cnt \<le> 15 \<Longrightarrow>
   \<exists>a'. solution_load_loop mem_ok (solution_save_loop lb cnt h) (sol, a) =
      Some (sol @ replicate (nat cnt) (byte2xsb lb) @ h, a')"
proof (induction h arbitrary: lb cnt sol a)
  case Nil
  then show ?case
    using dump_decode[OF ok Nil(2-5), of "[]" sol a]
    by (simp add: solmove_ERR_def)
next
  case (Cons c h)
  have c: "0 \<le> xsb2byte c" "xsb2byte c \<le> 7" "byte2xsb (xsb2byte c) = c"
    using Cons.prems(1) xsb2byte_alphabet[of c] by simp_all
  have h: "set h \<subseteq> set ''uldrULDR''" using Cons.prems(1) by simp
  have ne: "xsb2byte c \<noteq> solmove_ERR" using c by (simp add: solmove_ERR_def)
  show ?case
  proof (cases "xsb2byte c = lb \<and> cnt < 15")
    case True
    have "\<exists>a'. solution_load_loop mem_ok (solution_save_loop lb (cnt + 1) h) (sol, a) =
      Some (sol @ replicate (nat (cnt + 1)) (byte2xsb lb) @ h, a')"
      by (rule Cons.IH[OF h Cons.prems(2,3)]) (use Cons.prems True in simp_all)
    then obtain a' where "solution_load_loop mem_ok (solution_save_loop lb (cnt + 1) h) (sol, a) =
      Some (sol @ replicate (nat (cnt + 1)) (byte2xsb lb) @ h, a')" ..
    moreover have "replicate (nat (cnt + 1)) (byte2xsb lb) @ h = replicate (nat cnt) (byte2xsb lb) @ c # h"
      using True c(3) Cons.prems(4)
      by (simp add: nat_add_distrib replicate_app_Cons_same)
    ultimately show ?thesis using True ne
      by (simp add: Let_def)
  next
    case False
    obtain a1 where a1: "solution_load_loop mem_ok (dump_chunk lb cnt @ solution_save_loop (xsb2byte c) 1 h) (sol, a) =
      solution_load_loop mem_ok (solution_save_loop (xsb2byte c) 1 h) (sol @ replicate (nat cnt) (byte2xsb lb), a1)"
      using dump_decode[OF ok Cons.prems(2-5)] by blast
    have "\<exists>a'. solution_load_loop mem_ok (solution_save_loop (xsb2byte c) 1 h) (sol @ replicate (nat cnt) (byte2xsb lb), a1)
       = Some ((sol @ replicate (nat cnt) (byte2xsb lb)) @ replicate (nat 1) (byte2xsb (xsb2byte c)) @ h, a')"
      by (rule Cons.IH[OF h c(1,2)]) simp_all
    then obtain a' where "solution_load_loop mem_ok (solution_save_loop (xsb2byte c) 1 h) (sol @ replicate (nat cnt) (byte2xsb lb), a1)
       = Some ((sol @ replicate (nat cnt) (byte2xsb lb)) @ replicate (nat 1) (byte2xsb (xsb2byte c)) @ h, a')" ..
    then show ?thesis using False ne a1 c(3)
      by (auto simp add: Let_def)
  qed
qed

text \<open>
  C1. For every history over the alphabet u, l, d, r, U, L, D, R, reading back with
  \<open>solution_load\<close> the bytes written by \<open>solution_save\<close> gives the history
  again, in the same order and case, whenever the decoder's allocations succeed.
\<close>

theorem solution_roundtrip:
  assumes "set h \<subseteq> set ''uldrULDR''" and ok: "\<forall>n. mem_ok n"
  shows "solution_load mem_ok (Some (solution_save h)) = Some h"
proof (cases h)
  case Nil
  then show ?thesis using ok by (simp add: solution_load_def solution_save_def dump_chunk_def solmove_ERR_def)
next
  case (Cons c cs)
  have c: "0 \<le> xsb2byte c" "xsb2byte c \<le> 7" "byte2xsb (xsb2byte c) = c"
    using assms(1) Cons xsb2byte_alphabet[of c] by simp_all
  have cs: "set cs \<subseteq> set ''uldrULDR''" using assms(1) Cons by simp
  have "\<exists>a'. solution_load_loop mem_ok (solution_save_loop (xsb2byte c) 1 cs) ([], 16) =
      Some ([] @ replicate (nat 1) (byte2xsb (xsb2byte c)) @ cs, a')"
    by (rule save_loop_decode[OF ok cs c(1,2)]) simp_all
  then obtain a' where "solution_load_loop mem_ok (solution_save_loop (xsb2byte c) 1 cs) ([], 16) =
      Some ([] @ replicate (nat 1) (byte2xsb (xsb2byte c)) @ cs, a')" ..
  then show ?thesis using c ok Cons
    by (simp add: solution_load_def solution_save_def dump_chunk_def solmove_ERR_def)
qed

theorem solution_roundtrip_witness:
  "set ''uuuuUUUUrrr'' \<subseteq> set ''uldrULDR'' \<and> (\<forall>n::nat. True) \<and>
   solution_load (\<lambda>_. True) (Some (solution_save ''uuuuUUUUrrr'')) = Some ''uuuuUUUUrrr''"
  using solution_roundtrip[of "''uuuuUUUUrrr''" "\<lambda>_. True"] by simp

lemma solution_save_example: "solution_save ''uuuuUUUUrrr'' = [0x40, 0x44, 0x33]"
  by (simp add: solution_save_def dump_chunk_def solmove_ERR_def xsb2byte_def)

lemma zero_run_skipped_aux:
  "drop_bit 4 b = 0 \<Longrightarrow> solution_load mem_ok (Some (bs1 @ b # bs2)) = solution_load mem_ok (Some (bs1 @ bs2))"
proof -
  assume z: "drop_bit 4 b = 0"
  have "solution_load_loop mem_ok (bs1 @ b # bs2) st = solution_load_loop mem_ok (bs1 @ bs2) st" for st
    by (induction bs1 arbitrary: st) (auto simp: z Let_def split: option.splits)
  then show ?thesis by (simp add: solution_load_def)
qed

lemma load_loop_None_iff:
  assumes ok: "\<forall>n. mem_ok n"
  shows "solution_load_loop mem_ok bs st = None \<longleftrightarrow>
     (\<exists>b \<in> set bs. drop_bit 4 b \<noteq> 0 \<and> 7 < b AND 15)"
proof (induction bs arbitrary: st)
  case Nil
  show ?case by simp
next
  case (Cons b bs)
  obtain sol a where st: "st = (sol, a)" by (cases st)
  show ?case
  proof (cases "7 < b AND 15")
    case True
    then have bad: "\<not> (0 \<le> uint (b AND 15) \<and> uint (b AND 15) \<le> 7)"
      by (simp add: word_less_def)
    show ?thesis
    proof (cases "drop_bit 4 b = 0")
      case z: True
      then show ?thesis using Cons.IH st by (simp add: Let_def)
    next
      case nz: False
      then have "0 < unat (drop_bit 4 b)" by (simp add: unat_gt_0)
      then have "load_chunk mem_ok (unat (drop_bit 4 b)) (uint (b AND 15)) st = None"
        using load_chunk_invalid[OF bad] by blast
      then show ?thesis using True nz by (simp add: Let_def)
    qed
  next
    case False
    then have good: "0 \<le> uint (b AND 15)" "uint (b AND 15) \<le> 7"
      by (simp_all add: word_less_def not_less word_le_def)
    obtain a' where "load_chunk mem_ok (unat (drop_bit 4 b)) (uint (b AND 15)) (sol, a)
        = Some (sol @ replicate (unat (drop_bit 4 b)) (byte2xsb (uint (b AND 15))), a')"
      using load_chunk_valid[OF ok good] by blast
    then show ?thesis using False Cons.IH st by (simp add: Let_def)
  qed
qed

text \<open>
  C10. A byte whose run length (high nibble) is 0 is consumed and adds nothing, whatever
  its low nibble: the decoder gives the same result as on the file without that byte.
  With allocations succeeding, decoding ends with no result exactly when some byte has
  a non-zero run length together with a code nibble above 7.
\<close>

theorem zero_run_byte_ignored:
  "(drop_bit 4 b = 0 \<longrightarrow>
      solution_load mem_ok (Some (bs1 @ b # bs2)) = solution_load mem_ok (Some (bs1 @ bs2))) \<and>
   ((\<forall>n. mem_ok n) \<longrightarrow>
      (solution_load mem_ok (Some bs) = None \<longleftrightarrow>
         (\<exists>b \<in> set bs. drop_bit 4 b \<noteq> 0 \<and> 7 < b AND 15)))"
  using zero_run_skipped_aux[of b mem_ok bs1 bs2] load_loop_None_iff[of mem_ok bs "([], 16)"]
  by (auto simp: solution_load_def split: option.splits)

theorem zero_run_byte_ignored_witness:
  "drop_bit 4 (0x0F :: byte) = 0 \<and> (\<forall>n::nat. True) \<and>
   solution_load (\<lambda>_. True) (Some ([0x11] @ 0x0F # [0x22])) = Some ''ldd'' \<and>
   solution_load (\<lambda>_. True) (Some ([0x11] @ [0x22])) = Some ''ldd'' \<and>
   solution_load (\<lambda>_. True) (Some [0x11, 0x1F]) = None \<and>
   (\<exists>b \<in> set [0x11, 0x1F :: byte]. drop_bit 4 b \<noteq> 0 \<and> 7 < b AND 15)"
  using zero_run_byte_ignored[of "0x0F" "\<lambda>_. True" "[0x11]" "[0x22]" "[0x11, 0x1F]"]
  by (simp add: solution_load_def byte2xsb_def load_chunk_pos)

section \<open>The solved check and the moves\<close>


lemmas flag_defs = field_floor_def field_atom_def field_goal_def field_wall_def
lemmas res_defs = sokmove_pushed_def sokmove_ongoal_def sokmove_solved_def


lemma unfilled_goal_iff:
  "unfilled_goal game \<longleftrightarrow>
     (\<exists>x < field_width game. \<exists>y < field_height game.
        field game (int x) (int y) AND field_goal \<noteq> 0 \<and> field game (int x) (int y) AND field_atom = 0)"
  unfolding unfilled_goal_def list_ex_iff by (simp add: Bex_def) blast

lemma getpushes_pos_iff:
  "sok_history_getpushes hist \<noteq> 0 \<longleftrightarrow>
     (\<exists>h. hist = Some h \<and> (\<exists>c \<in> set h. CHR ''A'' \<le> c \<and> c \<le> CHR ''Z''))"
  by (cases hist) (auto simp: sok_history_getpushes_def filter_empty_conv)

text \<open>
  C4. \<open>sok_checksolution\<close>, called with a game state, reports solved exactly when every
  cell of \<open>[0, field_width) \<times> [0, field_height)\<close> that carries the goal flag also carries
  the atom flag and the history holds at least one uppercase character; a history
  without a push is never solved, whatever the board.
\<close>

theorem sok_checksolution_iff:
  "(sok_checksolution game (Some states) \<noteq> 0 \<longleftrightarrow>
      (\<forall>x < field_width game. \<forall>y < field_height game.
         field game (int x) (int y) AND field_goal \<noteq> 0 \<longrightarrow>
         field game (int x) (int y) AND field_atom \<noteq> 0) \<and>
      (\<exists>h. history states = Some h \<and> (\<exists>c \<in> set h. CHR ''A'' \<le> c \<and> c \<le> CHR ''Z''))) \<and>
   (sok_history_getpushes (history states) = 0 \<longrightarrow> sok_checksolution game (Some states) = 0)"
  using getpushes_pos_iff[of "history states"]
  by (auto simp: sok_checksolution_def unfilled_goal_iff)


text \<open>
  C9. \<open>sok_move\<close> with \<open>sokmoveNONE\<close> is \<open>sok_move\<close> with \<open>sokmoveUP\<close>: the same
  vector \<open>(0, -1)\<close>, angle and history character, the same returned value and the same
  resulting structures.
\<close>

theorem sok_move_none_is_up:
  "move_dir sokmoveNONE = (0, - 1, 0, CHR ''u'') \<and> move_dir sokmoveUP = (0, - 1, 0, CHR ''u'') \<and>
   sok_move mem_ok game sokmoveNONE validitycheck states = sok_move mem_ok game sokmoveUP validitycheck states"
  unfolding sok_move_def move_dir.simps by simp


lemma bit_field_atom: "bit field_atom n \<longleftrightarrow> n = 1"
  by (auto simp: field_atom_def bit_2_iff)

lemma and_zero_iff: "(v AND w = (0::byte)) \<longleftrightarrow> (\<forall>n. \<not> (bit v n \<and> bit w n))"
proof
  assume "v AND w = 0"
  then have "\<not> bit (v AND w) n" for n by simp
  then show "\<forall>n. \<not> (bit v n \<and> bit w n)" by (simp add: bit_and_iff)
next
  assume "\<forall>n. \<not> (bit v n \<and> bit w n)"
  then show "v AND w = 0" by (intro bit_eqI) (simp add: bit_and_iff)
qed

lemma atom_restore: "v AND field_atom \<noteq> 0 \<Longrightarrow> (v AND NOT field_atom) OR field_atom = v"
proof -
  assume "v AND field_atom \<noteq> 0"
  then have b: "bit v 1" by (auto simp: and_zero_iff bit_field_atom)
  show ?thesis
    by (rule bit_eqI) (use b in \<open>auto simp: bit_or_iff bit_and_iff bit_not_iff bit_field_atom\<close>)
qed

lemma atom_clear: "v AND field_atom = 0 \<Longrightarrow> (v OR field_atom) AND NOT field_atom = v"
proof -
  assume "v AND field_atom = 0"
  then have b: "\<not> bit v 1" by (auto simp: and_zero_iff bit_field_atom)
  show ?thesis
    by (rule bit_eqI) (use b in \<open>auto simp: bit_or_iff bit_and_iff bit_not_iff bit_field_atom\<close>)
qed

lemma and_or_zero: "v AND (w OR a) = 0 \<Longrightarrow> v AND a = (0::byte)"
  by (auto simp: and_zero_iff bit_or_iff)

lemma char_of_upper:
  "char_of (85::int) = CHR ''U''" "char_of (82::int) = CHR ''R''"
  "char_of (68::int) = CHR ''D''" "char_of (76::int) = CHR ''L''"
  by (simp_all add: char_of_def)

text \<open>What a committed move is: a walk or a push.\<close>

lemma sok_move_committed:
  assumes m: "sok_move mem_ok g d 0 s = Some (r, g', s')" and r: "0 \<le> r"
    and dir: "move_dir d = (vx, vy, ang, hc)"
  shows "\<exists>h. history s = Some h \<and>
     ((field g (positionx g + vx) (positiony g + vy) AND field_atom = 0 \<and>
       g' = g\<lparr>positiony := positiony g + vy, positionx := positionx g + vx\<rparr> \<and>
       history s' = Some (h @ [hc])) \<or>
      (field g (positionx g + vx) (positiony g + vy) AND field_atom \<noteq> 0 \<and>
       field g (positionx g + vx * 2) (positiony g + vy * 2) AND field_atom = 0 \<and>
       g' = (set_field (set_field g (positionx g + vx) (positiony g + vy)
                   (field g (positionx g + vx) (positiony g + vy) AND NOT field_atom))
                (positionx g + vx * 2) (positiony g + vy * 2)
                (field g (positionx g + vx * 2) (positiony g + vy * 2) OR field_atom))
             \<lparr>positiony := positiony g + vy, positionx := positionx g + vx\<rparr> \<and>
       history s' = Some (h @ [char_of (of_char hc - (32::int))])))"
  using m r dir and_or_zero[of "field g (positionx g + vx * 2) (positiony g + vy * 2)" field_wall field_atom]
  unfolding sok_move_def Let_def
  by (auto simp: ERR_MEM_ALLOC_FAILED_def sok_history_getlen_def set_field_def
           split: if_splits option.splits)


lemmas move_eval = sok_move_def Let_def sok_history_getlen_def sok_checksolution_def
     flag_defs set_field_def res_defs unfilled_goal_def sok_history_getpushes_def upt_rec char_of_upper


lemma move_dir_cases:
  "move_dir d = (vx, vy, ang, hc) \<Longrightarrow>
     (vx, vy, hc) \<in> {(0, - 1, CHR ''u''), (1, 0, CHR ''r''), (0, 1, CHR ''d''), (- 1, 0, CHR ''l'')}"
  by (cases d) auto

lemma sok_undo_last:
  assumes "history s = Some (h @ [c])"
  shows "sok_undo g s =
     (case undo_dir c (angle s) of (movex, movey, ang) \<Rightarrow>
        let g1 = (if CHR ''A'' \<le> c \<and> c \<le> CHR ''Z'' then
                    set_field (set_field g (positionx g - movex) (positiony g - movey)
                                 (field g (positionx g - movex) (positiony g - movey) AND NOT field_atom))
                       (positionx g) (positiony g)
                       (field (set_field g (positionx g - movex) (positiony g - movey)
                                 (field g (positionx g - movex) (positiony g - movey) AND NOT field_atom))
                          (positionx g) (positiony g) OR field_atom)
                  else g)
        in (g1\<lparr>positionx := positionx g1 + movex, positiony := positiony g1 + movey\<rparr>,
            s\<lparr>angle := ang, history := Some h\<rparr>))"
  using assms
  by (simp add: sok_undo_def sok_history_getlen_def Let_def set_field_def split: prod.splits)

lemma field_push_undo:
  fixes f :: "int \<Rightarrow> int \<Rightarrow> byte"
  assumes ne: "ax \<noteq> bx \<or> ay \<noteq> by"
    and a: "f ax ay AND field_atom \<noteq> 0" and b: "f bx by AND field_atom = 0"
  defines "f1 \<equiv> f(ax := (f ax)(ay := f ax ay AND NOT field_atom))"
  defines "f2 \<equiv> f1(bx := (f1 bx)(by := f1 bx by OR field_atom))"
  defines "f3 \<equiv> f2(bx := (f2 bx)(by := f2 bx by AND NOT field_atom))"
  defines "f4 \<equiv> f3(ax := (f3 ax)(ay := f3 ax ay OR field_atom))"
  shows "f4 = f"
proof (intro ext)
  fix x y
  have f1b: "f1 bx by = f bx by" using ne by (auto simp: f1_def)
  have f2b: "f2 bx by = f bx by OR field_atom" by (simp add: f2_def f1b)
  have f3b: "f3 bx by = f bx by" by (simp add: f3_def f2b atom_clear[OF b])
  have f1a: "f1 ax ay = f ax ay AND NOT field_atom" by (simp add: f1_def)
  have f2a: "f2 ax ay = f1 ax ay" using ne by (auto simp: f2_def)
  have f3a: "f3 ax ay = f2 ax ay" using ne by (auto simp: f3_def)
  have f4a: "f4 ax ay = f ax ay" by (simp add: f4_def f3a f2a f1a atom_restore[OF a])
  have other: "f4 x y = f x y" if "\<not> (x = ax \<and> y = ay)" "\<not> (x = bx \<and> y = by)"
    using that by (auto simp: f4_def f3_def f2_def f1_def)
  have f4b: "f4 bx by = f bx by" using ne f3b by (auto simp: f4_def)
  show "f4 x y = f x y" using f4a f4b other by blast
qed

theorem sok_checksolution_iff_witness:
  "sok_checksolution solved_game (Some solved_states) \<noteq> 0 \<and>
   field solved_game 2 1 AND field_goal \<noteq> 0 \<and>
   field solved_game 2 1 AND field_atom \<noteq> 0 \<and>
   (\<exists>c \<in> set ''R''. CHR ''A'' \<le> c \<and> c \<le> CHR ''Z'') \<and>
   sok_history_getpushes (history preview_states) = 0 \<and>
   sok_checksolution solved_game (Some preview_states) = 0"
proof -
  have e: "sok_checksolution solved_game (Some solved_states) \<noteq> 0"
    by (simp add: move_eval solved_game_def solved_states_def)
  have p: "sok_history_getpushes (history preview_states) = 0"
    by (simp add: preview_states_def sok_history_getpushes_def)
  have g: "field solved_game (int 2) (int 1) AND field_goal \<noteq> 0"
    by (simp add: solved_game_def flag_defs)
  from sok_checksolution_iff[of solved_game solved_states] e
  have "\<forall>x < field_width solved_game. \<forall>y < field_height solved_game.
      field solved_game (int x) (int y) AND field_goal \<noteq> 0 \<longrightarrow>
      field solved_game (int x) (int y) AND field_atom \<noteq> 0" by blast
  note cell = this[rule_format, of 2 1]
  have "(2::nat) < field_width solved_game" "(1::nat) < field_height solved_game"
    by (simp_all add: solved_game_def)
  with g cell have a: "field solved_game (int 2) (int 1) AND field_atom \<noteq> 0" by blast
  from sok_checksolution_iff[of solved_game preview_states] p
  have "sok_checksolution solved_game (Some preview_states) = 0" by blast
  then show ?thesis using e p g a by simp
qed

theorem sok_move_none_is_up_witness:
  "map_option (\<lambda>(r, g, s). (r, positionx g, positiony g, history s))
     (sok_move (\<lambda>_. True) preview_game sokmoveNONE 0 preview_states) = Some (0, 0, 0, Some ''u'') \<and>
   map_option (\<lambda>(r, g, s). (r, positionx g, positiony g, history s))
     (sok_move (\<lambda>_. True) preview_game sokmoveUP 0 preview_states) = Some (0, 0, 0, Some ''u'')"
  using sok_move_none_is_up[of "\<lambda>_. True" preview_game 0 preview_states]
  by (simp add: move_eval preview_game_def preview_states_def)


subsection \<open>Undo\<close>


lemma sok_undo_walk:
  assumes d: "(vx, vy, hc) \<in> {(0, - 1, CHR ''u''), (1, 0, CHR ''r''), (0, 1, CHR ''d''), (- 1, 0, CHR ''l'')}"
    and h: "history s' = Some (h @ [hc])"
  shows "fst (sok_undo (g\<lparr>positiony := positiony g + vy, positionx := positionx g + vx\<rparr>) s') = g \<and>
         history (snd (sok_undo (g\<lparr>positiony := positiony g + vy, positionx := positionx g + vx\<rparr>) s')) = Some h"
proof -
  from d consider "vx = 0 \<and> vy = - 1 \<and> hc = CHR ''u''" | "vx = 1 \<and> vy = 0 \<and> hc = CHR ''r''"
    | "vx = 0 \<and> vy = 1 \<and> hc = CHR ''d''" | "vx = - 1 \<and> vy = 0 \<and> hc = CHR ''l''"
    by blast
  then show ?thesis
    by cases (simp_all add: sok_undo_last[OF h] undo_dir_def)
qed

lemma sok_undo_push:
  assumes d: "(vx, vy, hc) \<in> {(0, - 1, CHR ''u''), (1, 0, CHR ''r''), (0, 1, CHR ''d''), (- 1, 0, CHR ''l'')}"
    and h: "history s' = Some (h @ [char_of (of_char hc - (32::int))])"
    and a: "field g (positionx g + vx) (positiony g + vy) AND field_atom \<noteq> 0"
    and b: "field g (positionx g + vx * 2) (positiony g + vy * 2) AND field_atom = 0"
    and g': "g' = (set_field (set_field g (positionx g + vx) (positiony g + vy)
                   (field g (positionx g + vx) (positiony g + vy) AND NOT field_atom))
                (positionx g + vx * 2) (positiony g + vy * 2)
                (field g (positionx g + vx * 2) (positiony g + vy * 2) OR field_atom))
             \<lparr>positiony := positiony g + vy, positionx := positionx g + vx\<rparr>"
  shows "fst (sok_undo g' s') = g \<and> history (snd (sok_undo g' s')) = Some h"
proof -
  from d consider "vx = 0 \<and> vy = - 1 \<and> hc = CHR ''u''" | "vx = 1 \<and> vy = 0 \<and> hc = CHR ''r''"
    | "vx = 0 \<and> vy = 1 \<and> hc = CHR ''d''" | "vx = - 1 \<and> vy = 0 \<and> hc = CHR ''l''"
    by blast
  note cs = this
  note ar = atom_restore[OF a] and ac = atom_clear[OF b]
  have f: "field (fst (sok_undo g' s')) x y = field g x y" for x y
    using cs
    by cases (use ar ac in \<open>simp_all add: sok_undo_last[OF h] undo_dir_def g' set_field_def Let_def
                                 char_of_upper add.commute\<close>)
  have r: "fst (sok_undo g' s') = g\<lparr>field := field (fst (sok_undo g' s'))\<rparr>"
    using cs
    by cases (simp_all add: sok_undo_last[OF h] undo_dir_def g' set_field_def Let_def char_of_upper)
  have "field (fst (sok_undo g' s')) = field g" using f by (intro ext)
  with r have "fst (sok_undo g' s') = g" by simp
  moreover have "history (snd (sok_undo g' s')) = Some h"
    using cs
    by cases (simp_all add: sok_undo_last[OF h] undo_dir_def g' set_field_def Let_def char_of_upper)
  ultimately show ?thesis by simp
qed

lemma sok_move_undo:
  assumes m: "sok_move mem_ok g d 0 s = Some (r, g', s')" and r: "0 \<le> r"
  shows "\<exists>h c. history s = Some h \<and> history s' = Some (h @ [c]) \<and>
           fst (sok_undo g' s') = g \<and> history (snd (sok_undo g' s')) = Some h"
proof -
  obtain vx vy ang hc where dir: "move_dir d = (vx, vy, ang, hc)" by (cases "move_dir d") auto
  note dc = move_dir_cases[OF dir]
  from sok_move_committed[OF m r dir] obtain h where h: "history s = Some h"
    and c: "(field g (positionx g + vx) (positiony g + vy) AND field_atom = 0 \<and>
       g' = g\<lparr>positiony := positiony g + vy, positionx := positionx g + vx\<rparr> \<and>
       history s' = Some (h @ [hc])) \<or>
      (field g (positionx g + vx) (positiony g + vy) AND field_atom \<noteq> 0 \<and>
       field g (positionx g + vx * 2) (positiony g + vy * 2) AND field_atom = 0 \<and>
       g' = (set_field (set_field g (positionx g + vx) (positiony g + vy)
                   (field g (positionx g + vx) (positiony g + vy) AND NOT field_atom))
                (positionx g + vx * 2) (positiony g + vy * 2)
                (field g (positionx g + vx * 2) (positiony g + vy * 2) OR field_atom))
             \<lparr>positiony := positiony g + vy, positionx := positionx g + vx\<rparr> \<and>
       history s' = Some (h @ [char_of (of_char hc - (32::int))]))"
    by blast
  from c show ?thesis
  proof
    assume w: "field g (positionx g + vx) (positiony g + vy) AND field_atom = 0 \<and>
       g' = g\<lparr>positiony := positiony g + vy, positionx := positionx g + vx\<rparr> \<and>
       history s' = Some (h @ [hc])"
    then show ?thesis using sok_undo_walk[OF dc, of s' h g] h by auto
  next
    assume p: "field g (positionx g + vx) (positiony g + vy) AND field_atom \<noteq> 0 \<and>
       field g (positionx g + vx * 2) (positiony g + vy * 2) AND field_atom = 0 \<and>
       g' = (set_field (set_field g (positionx g + vx) (positiony g + vy)
                   (field g (positionx g + vx) (positiony g + vy) AND NOT field_atom))
                (positionx g + vx * 2) (positiony g + vy * 2)
                (field g (positionx g + vx * 2) (positiony g + vy * 2) OR field_atom))
             \<lparr>positiony := positiony g + vy, positionx := positionx g + vx\<rparr> \<and>
       history s' = Some (h @ [char_of (of_char hc - (32::int))])"
    then show ?thesis using sok_undo_push[OF dc, of s' h g g'] h by auto
  qed
qed


lemma successful_moves_snoc:
  "successful_moves mem_ok (ds @ [d]) gs =
     (case successful_moves mem_ok ds gs of
        None \<Rightarrow> None
      | Some gs' \<Rightarrow> successful_moves mem_ok [d] gs')"
  by (induction ds arbitrary: gs) (auto split: option.splits)

lemma sok_undo_cong:
  "history s = history t \<Longrightarrow>
     fst (sok_undo g s) = fst (sok_undo g t) \<and>
     history (snd (sok_undo g s)) = history (snd (sok_undo g t))"
  by (cases "history t") (auto simp: sok_undo_def Let_def sok_history_getlen_def undo_dir_def split: prod.splits)

lemma undo_times_cong:
  "history s = history t \<Longrightarrow>
     fst (undo_times n (g, s)) = fst (undo_times n (g, t)) \<and>
     history (snd (undo_times n (g, s))) = history (snd (undo_times n (g, t)))"
proof (induction n arbitrary: g s t)
  case 0
  then show ?case by simp
next
  case (Suc n)
  from sok_undo_cong[OF Suc.prems, of g]
  have 1: "fst (sok_undo g s) = fst (sok_undo g t)"
    and 2: "history (snd (sok_undo g s)) = history (snd (sok_undo g t))" by simp_all
  obtain g1 s1 where s1: "sok_undo g s = (g1, s1)" by (cases "sok_undo g s")
  obtain g2 t1 where t1: "sok_undo g t = (g2, t1)" by (cases "sok_undo g t")
  from 1 2 s1 t1 have "g2 = g1" "history s1 = history t1" by simp_all
  with Suc.IH[of s1 t1 g1] s1 t1 show ?case by simp
qed


lemma undo_times_moves:
  "successful_moves mem_ok ds (g, s) = Some (g', s') \<Longrightarrow> k \<le> length ds \<Longrightarrow>
     \<exists>g1 s1. successful_moves mem_ok (take (length ds - k) ds) (g, s) = Some (g1, s1) \<and>
        fst (undo_times k (g', s')) = g1 \<and>
        history (snd (undo_times k (g', s'))) = history s1"
proof (induction ds arbitrary: g' s' k rule: rev_induct)
  case Nil
  then show ?case by simp
next
  case (snoc d ds)
  from snoc.prems(1) obtain g1 s1 r where
    pre: "successful_moves mem_ok ds (g, s) = Some (g1, s1)" and
    mv: "sok_move mem_ok g1 d 0 s1 = Some (r, g', s')" and r: "0 \<le> r"
    by (auto simp: successful_moves_snoc split: option.splits if_splits)
  show ?case
  proof (cases k)
    case 0
    then show ?thesis using snoc.prems(1) by simp
  next
    case (Suc j)
    then have j: "j \<le> length ds" using snoc.prems(2) by simp
    from sok_move_undo[OF mv r] have u1: "fst (sok_undo g' s') = g1"
      and u2: "history (snd (sok_undo g' s')) = history s1" by auto
    obtain t where t: "sok_undo g' s' = (g1, t)" "history t = history s1"
      using u1 u2 by (cases "sok_undo g' s'") auto
    from snoc.IH[OF pre j] obtain g2 s2 where
      ih: "successful_moves mem_ok (take (length ds - j) ds) (g, s) = Some (g2, s2)"
        "fst (undo_times j (g1, s1)) = g2" "history (snd (undo_times j (g1, s1))) = history s2"
      by blast
    from undo_times_cong[OF t(2), of j g1] ih
    have "fst (undo_times j (g1, t)) = g2" "history (snd (undo_times j (g1, t))) = history s2"
      by simp_all
    moreover have "take (length (ds @ [d]) - k) (ds @ [d]) = take (length ds - j) ds"
      using Suc by simp
    ultimately show ?thesis using ih(1) t(1) Suc by simp
  qed
qed

text \<open>
  C5. After a sequence of authoritative moves that all returned a non-negative value,
  \<open>k\<close> calls of \<open>sok_undo\<close> lead to the field, position and history that the first
  \<open>length ds - k\<close> moves had produced; after \<open>length ds\<close> calls they are those from
  before the sequence. One \<open>sok_undo\<close> removes exactly the last character of the
  history, and on an empty (or NULL) history it changes nothing.
\<close>

theorem undo_restores_moves:
  "(successful_moves mem_ok ds (g, s) = Some (g', s') \<longrightarrow>
      (\<forall>k \<le> length ds. \<exists>g1 s1.
          successful_moves mem_ok (take (length ds - k) ds) (g, s) = Some (g1, s1) \<and>
          field (fst (undo_times k (g', s'))) = field g1 \<and>
          positionx (fst (undo_times k (g', s'))) = positionx g1 \<and>
          positiony (fst (undo_times k (g', s'))) = positiony g1 \<and>
          history (snd (undo_times k (g', s'))) = history s1) \<and>
      field (fst (undo_times (length ds) (g', s'))) = field g \<and>
      positionx (fst (undo_times (length ds) (g', s'))) = positionx g \<and>
      positiony (fst (undo_times (length ds) (g', s'))) = positiony g \<and>
      history (snd (undo_times (length ds) (g', s'))) = history s) \<and>
   (history t = Some (h @ [c]) \<longrightarrow> history (snd (sok_undo gm t)) = Some h) \<and>
   (history t = None \<or> history t = Some [] \<longrightarrow> sok_undo gm t = (gm, t))"
proof (intro conjI impI)
  assume m: "successful_moves mem_ok ds (g, s) = Some (g', s')"
  show "\<forall>k \<le> length ds. \<exists>g1 s1.
          successful_moves mem_ok (take (length ds - k) ds) (g, s) = Some (g1, s1) \<and>
          field (fst (undo_times k (g', s'))) = field g1 \<and>
          positionx (fst (undo_times k (g', s'))) = positionx g1 \<and>
          positiony (fst (undo_times k (g', s'))) = positiony g1 \<and>
          history (snd (undo_times k (g', s'))) = history s1"
    using undo_times_moves[OF m] by metis
  from undo_times_moves[OF m, of "length ds"]
  have e: "fst (undo_times (length ds) (g', s')) = g"
       "history (snd (undo_times (length ds) (g', s'))) = history s" by simp_all
  from e show "field (fst (undo_times (length ds) (g', s'))) = field g" by simp
  from e show "positionx (fst (undo_times (length ds) (g', s'))) = positionx g" by simp
  from e show "positiony (fst (undo_times (length ds) (g', s'))) = positiony g" by simp
  from e show "history (snd (undo_times (length ds) (g', s'))) = history s" by simp
next
  assume "history t = Some (h @ [c])"
  then show "history (snd (sok_undo gm t)) = Some h"
    by (simp add: sok_undo_last Let_def split: prod.splits)
next
  assume "history t = None \<or> history t = Some []"
  then show "sok_undo gm t = (gm, t)"
    by (auto simp: sok_undo_def sok_history_getlen_def)
qed

theorem undo_restores_moves_witness:
  "\<exists>g' s'. successful_moves (\<lambda>_. True) [sokmoveRIGHT, sokmoveLEFT] (preview_game, preview_states)
       = Some (g', s') \<and>
     history s' = Some ''Rl'' \<and>
     field (fst (undo_times 2 (g', s'))) = field preview_game \<and>
     positionx (fst (undo_times 2 (g', s'))) = positionx preview_game \<and>
     positiony (fst (undo_times 2 (g', s'))) = positiony preview_game \<and>
     history (snd (undo_times 2 (g', s'))) = Some []"
proof -
  obtain g' s' where m: "successful_moves (\<lambda>_. True) [sokmoveRIGHT, sokmoveLEFT]
       (preview_game, preview_states) = Some (g', s')" and h: "history s' = Some ''Rl''"
    by (simp add: move_eval preview_game_def preview_states_def)
  have l: "length [sokmoveRIGHT, sokmoveLEFT] = 2" by simp
  from undo_restores_moves[of "\<lambda>_. True" "[sokmoveRIGHT, sokmoveLEFT]" preview_game preview_states g' s']
  have "field (fst (undo_times 2 (g', s'))) = field preview_game \<and>
     positionx (fst (undo_times 2 (g', s'))) = positionx preview_game \<and>
     positiony (fst (undo_times 2 (g', s'))) = positiony preview_game \<and>
     history (snd (undo_times 2 (g', s'))) = history preview_states"
    unfolding l using m by blast
  then show ?thesis using m h by (simp add: preview_states_def)
qed

subsection \<open>Pushes on a solved board, dry runs\<close>

lemma sok_checksolution_NULL: "sok_checksolution game None = 0"
  by (simp add: sok_checksolution_def)

text \<open>
  C2. On the solved board \<open>solved_game\<close> (its goal holds the atom and the history
  \<open>R\<close> records a push) the cell to the right of the player holds the atom, and the
  authoritative move to the right is not rejected: it returns \<open>sokmove_pushed\<close>, pushes
  the atom off its goal and appends \<open>R\<close> to the history. The guard on \<open>alreadysolved\<close>
  never fires, because \<open>sok_checksolution\<close> returns 0 whenever its second argument is
  NULL.
\<close>

theorem push_on_solved_level_accepted:
  "sok_checksolution solved_game (Some solved_states) \<noteq> 0 \<and>
   field solved_game (positionx solved_game + 1) (positiony solved_game) AND field_atom \<noteq> 0 \<and>
   map_option (\<lambda>(r, g, s). (r, positionx g, positiony g, field g 2 1, field g 3 1, history s))
     (sok_move (\<lambda>_. True) solved_game sokmoveRIGHT 0 solved_states) =
     Some (1, 2, 1, 5, 3, Some ''RR'')"
  by (simp add: move_eval solved_game_def solved_states_def)


lemma sok_checksolution_history:
  "history s = history t \<Longrightarrow> sok_checksolution g (Some s) = sok_checksolution g (Some t)"
  by (simp add: sok_checksolution_def)




section \<open>Loading levels\<close>

subsection \<open>The loops over the array\<close>

lemma set_field_sel [simp]:
  "field (set_field g x y v) = (field g)(x := (field g x)(y := v))"
  "field_width (set_field g x y v) = field_width g"
  "field_height (set_field g x y v) = field_height g"
  "positionx (set_field g x y v) = positionx g"
  "positiony (set_field g x y v) = positiony g"
  by (simp_all add: set_field_def)

lemma set_field_as_update: "set_field g x y v = g\<lparr>field := (field g)(x := (field g x)(y := v))\<rparr>"
  by (simp add: set_field_def)

lemma fill_row:
  "fold (\<lambda>x game. set_field game (int x) y v) [0..<n] g =
     g\<lparr>field := (\<lambda>a b. if 0 \<le> a \<and> a < int n \<and> b = y then v else field g a b)\<rparr>"
proof (induction n)
  case 0
  have "(\<lambda>a b. if 0 \<le> a \<and> a < int 0 \<and> b = y then X a b else field g a b) = field g" for X
    by (auto simp: fun_eq_iff)
  then show ?case by simp
next
  case (Suc n)
  have "(\<lambda>a b. if 0 \<le> a \<and> a < int n \<and> b = y then v else field g a b)
          (int n := ((\<lambda>b. if 0 \<le> int n \<and> int n < int n \<and> b = y then v else field g (int n) b))(y := v))
        = (\<lambda>a b. if 0 \<le> a \<and> a < int (Suc n) \<and> b = y then v else field g a b)"
    by (auto simp: fun_eq_iff)
  then show ?case using Suc by (simp add: set_field_as_update)
qed

lemma fill_floor_eq:
  "fill_floor g =
     g\<lparr>field := (\<lambda>a b. if 0 \<le> a \<and> a < 64 \<and> 0 \<le> b \<and> b < 64 then field_floor else field g a b)\<rparr>"
proof -
  define F where "F = (\<lambda>y game. fold (\<lambda>x game. set_field game (int x) (int y) field_floor) [0..<64] game)"
  have F: "F y h = h\<lparr>field := (\<lambda>a b. if 0 \<le> a \<and> a < 64 \<and> b = int y then field_floor else field h a b)\<rparr>"
    for y h using fill_row[of "int y" field_floor 64 h] by (simp add: F_def)
  have "fold F [0..<m] g
      = g\<lparr>field := (\<lambda>a b. if 0 \<le> a \<and> a < 64 \<and> 0 \<le> b \<and> b < int m then field_floor else field g a b)\<rparr>" for m
  proof (induction m)
    case 0
    have "(\<lambda>a b. if 0 \<le> a \<and> a < 64 \<and> 0 \<le> b \<and> b < int 0 then field_floor else field g a b) = field g"
      by (auto simp: fun_eq_iff)
    then show ?case by simp
  next
    case (Suc m)
    have "fold F [0..<Suc m] g = F m (fold F [0..<m] g)" by simp
    also have "\<dots> = F m (g\<lparr>field := (\<lambda>a b. if 0 \<le> a \<and> a < 64 \<and> 0 \<le> b \<and> b < int m then field_floor else field g a b)\<rparr>)"
      by (simp only: Suc)
    also have "\<dots> = g\<lparr>field := (\<lambda>a b. if 0 \<le> a \<and> a < 64 \<and> b = int m then field_floor
                 else (if 0 \<le> a \<and> a < 64 \<and> 0 \<le> b \<and> b < int m then field_floor else field g a b))\<rparr>"
      by (simp add: F cong: if_cong)
    also have "(\<lambda>a b. if 0 \<le> a \<and> a < 64 \<and> b = int m then field_floor
                 else (if 0 \<le> a \<and> a < 64 \<and> 0 \<le> b \<and> b < int m then field_floor else field g a b))
       = (\<lambda>a b. if 0 \<le> a \<and> a < 64 \<and> 0 \<le> b \<and> b < int (Suc m) then field_floor else field g a b)"
      by (auto simp: fun_eq_iff)
    finally show ?case .
  qed
  from this[of 64] show ?thesis by (simp add: fill_floor_def F_def)
qed

lemma shift_row:
  "fold (\<lambda>x game. set_field game (int x) y (field game (int x + 1) (y + 1))) [0..<n] g =
     g\<lparr>field := (\<lambda>a b. if 0 \<le> a \<and> a < int n \<and> b = y then field g (a + 1) (y + 1) else field g a b)\<rparr>"
proof (induction n)
  case 0
  have "(\<lambda>a b. if 0 \<le> a \<and> a < int 0 \<and> b = y then X a b else field g a b) = field g" for X
    by (auto simp: fun_eq_iff)
  then show ?case by simp
next
  case (Suc n)
  have "(\<lambda>a b. if 0 \<le> a \<and> a < int n \<and> b = y then field g (a + 1) (y + 1) else field g a b)
          (int n := ((\<lambda>b. if 0 \<le> int n \<and> int n < int n \<and> b = y then field g (int n + 1) (y + 1) else field g (int n) b))
             (y := (if 0 \<le> int n + 1 \<and> int n + 1 < int n \<and> y + 1 = y then field g (int n + 1 + 1) (y + 1)
                    else field g (int n + 1) (y + 1))))
        = (\<lambda>a b. if 0 \<le> a \<and> a < int (Suc n) \<and> b = y then field g (a + 1) (y + 1) else field g a b)"
    by (auto simp: fun_eq_iff)
  then show ?case using Suc by (simp add: set_field_as_update)
qed

lemma shift_field_eq:
  "shift_field g =
     g\<lparr>field := (\<lambda>a b. if 0 \<le> a \<and> a < 63 \<and> 0 \<le> b \<and> b < 63 then field g (a + 1) (b + 1) else field g a b)\<rparr>"
proof -
  define F where "F = (\<lambda>y game. fold (\<lambda>x game. set_field game (int x) (int y) (field game (int x + 1) (int y + 1))) [0..<63] game)"
  have F: "F y h = h\<lparr>field := (\<lambda>a b. if 0 \<le> a \<and> a < 63 \<and> b = int y then field h (a + 1) (int y + 1) else field h a b)\<rparr>"
    for y h using shift_row[of "int y" 63 h] by (simp add: F_def)
  have "fold F [0..<m] g
      = g\<lparr>field := (\<lambda>a b. if 0 \<le> a \<and> a < 63 \<and> 0 \<le> b \<and> b < int m then field g (a + 1) (b + 1) else field g a b)\<rparr>" for m
  proof (induction m)
    case 0
    have "(\<lambda>a b. if 0 \<le> a \<and> a < 63 \<and> 0 \<le> b \<and> b < int 0 then field g (a + 1) (b + 1) else field g a b) = field g"
      by (auto simp: fun_eq_iff)
    then show ?case by simp
  next
    case (Suc m)
    let ?f = "(\<lambda>a b. if 0 \<le> a \<and> a < 63 \<and> 0 \<le> b \<and> b < int m then field g (a + 1) (b + 1) else field g a b)"
    have "fold F [0..<Suc m] g = F m (fold F [0..<m] g)" by simp
    also have "\<dots> = F m (g\<lparr>field := ?f\<rparr>)"
      by (simp only: Suc)
    also have "\<dots> = g\<lparr>field := (\<lambda>a b. if 0 \<le> a \<and> a < 63 \<and> b = int m then ?f (a + 1) (int m + 1) else ?f a b)\<rparr>"
      by (simp add: F cong: if_cong)
    also have "(\<lambda>a b. if 0 \<le> a \<and> a < 63 \<and> b = int m then ?f (a + 1) (int m + 1) else ?f a b)
       = (\<lambda>a b. if 0 \<le> a \<and> a < 63 \<and> 0 \<le> b \<and> b < int (Suc m) then field g (a + 1) (b + 1) else field g a b)"
      by (auto simp: fun_eq_iff)
    finally show ?case .
  qed
  from this[of 63] show ?thesis by (simp add: shift_field_def F_def)
qed

subsection \<open>Flood fill, the legacy hash\<close>

lemma flooded_from_refl: "flooded_from g g"
  by (simp add: flooded_from_def)

lemma flooded_from_trans:
  assumes "flooded_from g g'" "flooded_from g' g''"
  shows "flooded_from g g''"
proof -
  have r: "g'' = g\<lparr>field := field g''\<rparr>"
    using assms by (metis (no_types, lifting) flooded_from_def sokgame.surjective sokgame.update_convs(3))
  have "field g'' a b = field g a b \<or>
            (0 \<le> a \<and> a < 64 \<and> 0 \<le> b \<and> b < 64 \<and> field g a b = field_floor \<and> field g'' a b = 0)" for a b
  proof -
    from assms(1) have 1: "field g' a b = field g a b \<or>
            (0 \<le> a \<and> a < 64 \<and> 0 \<le> b \<and> b < 64 \<and> field g a b = field_floor \<and> field g' a b = 0)"
      by (simp add: flooded_from_def)
    from assms(2) have 2: "field g'' a b = field g' a b \<or>
            (0 \<le> a \<and> a < 64 \<and> 0 \<le> b \<and> b < 64 \<and> field g' a b = field_floor \<and> field g'' a b = 0)"
      by (simp add: flooded_from_def)
    from 1 2 show ?thesis by (auto simp: field_floor_def)
  qed
  with r show ?thesis unfolding flooded_from_def by blast
qed

lemma flooded_from_set:
  "0 \<le> x \<and> x < 64 \<and> 0 \<le> y \<and> y < 64 \<and> field g x y = field_floor \<Longrightarrow> flooded_from g (set_field g x y 0)"
  by (auto simp: flooded_from_def set_field_def)

lemma floodFillField_flooded: "flooded_from game (floodFillField game x y)"
proof (induction game x y rule: floodFillField.induct)
  case (1 game x y)
  show ?case
  proof (cases "x \<ge> 0 \<and> x < 64 \<and> y \<ge> 0 \<and> y < 64 \<and> field game x y = field_floor")
    case False
    then show ?thesis by (subst floodFillField.simps) (auto simp: flooded_from_refl)
  next
    case True
    define g1 where "g1 = set_field game x y 0"
    define g2 where "g2 = floodFillField g1 (x + 1) y"
    define g3 where "g3 = floodFillField g2 (x - 1) y"
    define g4 where "g4 = floodFillField g3 x (y + 1)"
    have r: "floodFillField game x y = floodFillField g4 x (y - 1)"
      using True by (subst floodFillField.simps) (auto simp: g1_def g2_def g3_def g4_def Let_def)
    have s1: "flooded_from game g1" unfolding g1_def using True by (intro flooded_from_set) simp
    have s2: "flooded_from g1 g2"
      unfolding g2_def g1_def using "1.IH"(1)[OF True refl] .
    have s3: "flooded_from g2 g3"
      unfolding g3_def g2_def g1_def using "1.IH"(2)[OF True refl refl] .
    have s4: "flooded_from g3 g4"
      unfolding g4_def g3_def g2_def g1_def using "1.IH"(3)[OF True refl refl refl] .
    have s5: "flooded_from g4 (floodFillField g4 x (y - 1))"
      unfolding g4_def g3_def g2_def g1_def using "1.IH"(4)[OF True refl refl refl refl] .
    show ?thesis unfolding r
      using s1 s2 s3 s4 s5 flooded_from_trans by blast
  qed
qed

lemma fold_feed_concat:
  "fold (\<lambda>y crc. fold (\<lambda>x crc. f crc [c x y]) xs crc) ys crc0 =
     fold (\<lambda>b crc. f crc [b]) (concat (map (\<lambda>y. map (\<lambda>x. c x y) xs) ys)) crc0"
proof (induction ys arbitrary: crc0)
  case Nil
  then show ?case by simp
next
  case (Cons y ys)
  have "fold (\<lambda>x crc. f crc [c x y]) xs crc = fold (\<lambda>b crc. f crc [b]) (map (\<lambda>x. c x y) xs) crc" for crc
    by (simp add: fold_map comp_def)
  then show ?case using Cons by simp
qed

lemma legacy_crc32_cells:
  "legacy_crc32 lib game =
     crc32_finish lib (fold (\<lambda>b crc. crc32_feed lib crc [b]) (legacy_cells game) (crc32_init lib))"
  unfolding legacy_crc32_def legacy_cells_def
  by (simp add: fold_feed_concat[of "crc32_feed lib" "\<lambda>x y. field game (int x) (int y)"])


text \<open>Evaluating the parser on a given buffer.\<close>

lemmas parse_eval = level_loop.simps readRLEbyte_def readRLEbyte_loop.simps skip_comment.simps
  level_char_def mark_started_def track_extent_def or_field_def Let_def ch_def load_init_def
  fill_floor_eq

lemma rle_loop_numeral [simp]:
  "rle_loop (numeral k) st = rle_loop (Suc (pred_numeral k)) st"
  by (simp add: numeral_eq_Suc)

text \<open>What \<open>loadlevelfromfile\<close> returns when it does not fail.\<close>

lemma loadlevelfromfile_ok:
  assumes l: "loadlevelfromfile lib game mem = (rc, g, mem')" and rc: "0 \<le> rc"
  shows "g = (shift_field (level_flooded game mem))
               \<lparr>crc32_106 := legacy_crc32 lib (shift_field (level_flooded game mem)),
                 crc64 := level_crc64 lib (shift_field (level_flooded game mem))\<rparr>"
    and "rc = (if ls_endoffile (snd (level_loop (load_init game mem))) \<noteq> 0 then 1 else 0)"
    and "mem' = ls_memptr (snd (level_loop (load_init game mem)))"
proof -
  obtain e st where ll: "level_loop (load_init game mem) = (e, st)"
    by (cases "level_loop (load_init game mem)")
  have e: "e = None"
  proof (cases e)
    case (Some err)
    then have "err < 0" using level_loop_err ll by blast
    then show ?thesis using l rc ll Some by (simp add: loadlevelfromfile_def)
  qed simp
  have c: "level_crc64 lib (h\<lparr>crc32_106 := v\<rparr>) = level_crc64 lib h" for h v
    by (simp add: level_crc64_def)
  from l rc ll e
  show "g = (shift_field (level_flooded game mem))
               \<lparr>crc32_106 := legacy_crc32 lib (shift_field (level_flooded game mem)),
                 crc64 := level_crc64 lib (shift_field (level_flooded game mem))\<rparr>"
    and "rc = (if ls_endoffile (snd (level_loop (load_init game mem))) \<noteq> 0 then 1 else 0)"
    and "mem' = ls_memptr (snd (level_loop (load_init game mem)))"
    by (auto simp: loadlevelfromfile_def level_flooded_def Let_def c
          ERR_PLAYER_POS_UNDEFINED_def ERR_LEVEL_TOO_SMALL_def ERR_NO_LEVEL_DATA_FOUND_def
          split: if_splits)
qed

lemma level_flooded_from:
  "flooded_from (ls_game (snd (level_loop (load_init game mem)))) (level_flooded game mem)"
  unfolding level_flooded_def by (rule floodFillField_flooded)

lemma flooded_from_keep:
  "flooded_from g g' \<Longrightarrow> field g a b \<noteq> field_floor \<Longrightarrow> field g' a b = field g a b"
  by (auto simp: flooded_from_def)

lemma flooded_from_sel:
  assumes "flooded_from g g'"
  shows "field_width g' = field_width g" "field_height g' = field_height g"
    "positionx g' = positionx g" "positiony g' = positiony g"
proof -
  from assms have "g' = g\<lparr>field := field g'\<rparr>" by (simp add: flooded_from_def)
  then have "field_width g' = field_width (g\<lparr>field := field g'\<rparr>)"
    "field_height g' = field_height (g\<lparr>field := field g'\<rparr>)"
    "positionx g' = positionx (g\<lparr>field := field g'\<rparr>)"
    "positiony g' = positiony (g\<lparr>field := field g'\<rparr>)" by simp_all
  then show "field_width g' = field_width g" "field_height g' = field_height g"
    "positionx g' = positionx g" "positiony g' = positiony g" by simp_all
qed

text \<open>
  C6, amended. For every CRC library and every level that \<open>loadlevelfromfile\<close> loads,
  \<open>crc32_106\<close> is the CRC-32 of the cells \<open>field[x][y]\<close> of the returned grid, taken
  with \<open>y\<close> below \<open>field_width\<close> in the outer loop and \<open>x\<close> below \<open>field_height\<close> in the
  inner one; the returned grid is the flood-filled grid after the shift by \<open>(-1, -1)\<close>;
  and the player position is not part of the input.
\<close>

theorem legacy_hash_after_shift:
  assumes l: "loadlevelfromfile lib game mem = (rc, g, mem')" and rc: "0 \<le> rc"
  shows "crc32_106 g =
           crc32_finish lib (fold (\<lambda>b crc. crc32_feed lib crc [b]) (legacy_cells g) (crc32_init lib)) \<and>
         legacy_cells g =
           concat (map (\<lambda>y. map (\<lambda>x. field g (int x) (int y)) [0..<field_height g])
                     [0..<field_width g]) \<and>
         field g = (\<lambda>a b. if 0 \<le> a \<and> a < 63 \<and> 0 \<le> b \<and> b < 63
                           then field (level_flooded game mem) (a + 1) (b + 1)
                           else field (level_flooded game mem) a b) \<and>
         legacy_cells (g\<lparr>positionx := px, positiony := py\<rparr>) = legacy_cells g"
proof -
  note g = loadlevelfromfile_ok(1)[OF l rc]
  have lc: "legacy_cells g = legacy_cells (shift_field (level_flooded game mem))"
    by (subst g) (simp add: legacy_cells_def)
  have "crc32_106 g = legacy_crc32 lib (shift_field (level_flooded game mem))"
    by (subst g) simp
  then have 1: "crc32_106 g =
           crc32_finish lib (fold (\<lambda>b crc. crc32_feed lib crc [b]) (legacy_cells g) (crc32_init lib))"
    by (simp add: legacy_crc32_cells lc)
  have 3: "field g = (\<lambda>a b. if 0 \<le> a \<and> a < 63 \<and> 0 \<le> b \<and> b < 63
                           then field (level_flooded game mem) (a + 1) (b + 1)
                           else field (level_flooded game mem) a b)"
    by (subst g) (simp add: shift_field_eq)
  show ?thesis using 1 3 by (simp add: legacy_cells_def)
qed

lemma parse_plus:
  "fst (level_loop (load_init game ''+'')) = None"
  "ls_endoffile (snd (level_loop (load_init game ''+''))) = 1"
  "ls_leveldatastarted (snd (level_loop (load_init game ''+''))) = 1"
  "ls_memptr (snd (level_loop (load_init game ''+''))) = []"
  "field_width (ls_game (snd (level_loop (load_init game ''+'')))) = 1"
  "field_height (ls_game (snd (level_loop (load_init game ''+'')))) = 1"
  "positionx (ls_game (snd (level_loop (load_init game ''+'')))) = 0"
  "positiony (ls_game (snd (level_loop (load_init game ''+'')))) = 0"
  "field (ls_game (snd (level_loop (load_init game ''+'')))) 1 1 = 5"
  "field (ls_game (snd (level_loop (load_init game ''+'')))) 0 0 = 1"
  by (simp_all add: parse_eval flag_defs)

lemma crc32_std_values:
  "crc_bytes (0xEDB88320 :: 32 word) 0xFFFFFFFF [5] XOR 0xFFFFFFFF = 2724731650"
  "crc_bytes (0xEDB88320 :: 32 word) 0xFFFFFFFF [0] XOR 0xFFFFFFFF = 3523407757"
  "crc_bytes (0xEDB88320 :: 32 word) 0xFFFFFFFF [1] XOR 0xFFFFFFFF = 2768625435"
  by code_simp+

lemma loadlevelfromfile_plus:
  "\<exists>g. loadlevelfromfile lib game ''+'' = (1, g, [])"
proof -
  obtain e st where ll: "level_loop (load_init game ''+'') = (e, st)"
    by (cases "level_loop (load_init game ''+'')")
  then show ?thesis
    using parse_plus[of game]
    by (simp add: loadlevelfromfile_def Let_def)
qed

text \<open>
  C6, as stated, fails on the level \<open>+\<close> (a player on a goal): the one cell the
  legacy hash is fed is \<open>field[0][0] = 5\<close> of the shifted grid, while the cell
  \<open>[0][0]\<close> of the grid before the shift is a border cell holding 0 or 1; with the
  standard CRC-32 the stored hash differs from the hash of the grid before the shift.
\<close>

theorem legacy_hash_not_preshift:
  "legacy_cells (fst (snd (loadlevelfromfile std_crc blank_game ''+''))) = [5] \<and>
   legacy_cells (level_flooded blank_game ''+'') \<noteq> [5] \<and>
   crc32_106 (fst (snd (loadlevelfromfile std_crc blank_game ''+''))) \<noteq>
     legacy_hash_spec std_crc blank_game ''+''"
proof -
  define fl where "fl = level_flooded blank_game ''+''"
  obtain g where l: "loadlevelfromfile std_crc blank_game ''+'' = (1, g, [])"
    using loadlevelfromfile_plus by blast
  note ff = level_flooded_from[of blank_game "''+''", folded fl_def]
  have wh: "field_width fl = 1" "field_height fl = 1"
    using flooded_from_sel[OF ff] by (simp_all add: parse_plus)
  have c11: "field fl 1 1 = 5"
    using flooded_from_keep[OF ff, of 1 1] by (simp add: parse_plus field_floor_def)
  have c00: "field fl 0 0 = 0 \<or> field fl 0 0 = 1"
    using ff parse_plus(10)[of blank_game] unfolding flooded_from_def by metis
  have g: "g = (shift_field fl)\<lparr>crc32_106 := legacy_crc32 std_crc (shift_field fl),
                 crc64 := level_crc64 std_crc (shift_field fl)\<rparr>"
    using loadlevelfromfile_ok(1)[OF l] by (simp add: fl_def)
  have cg: "legacy_cells g = [5]"
    by (subst g) (simp add: legacy_cells_def shift_field_eq wh c11)
  have cf: "legacy_cells fl = [0] \<or> legacy_cells fl = [1]"
    using c00 by (simp add: legacy_cells_def wh)
  have hg: "crc32_106 g = 2724731650"
  proof -
    have "crc32_106 g = legacy_crc32 std_crc (shift_field fl)" by (subst g) simp
    also have "legacy_cells (shift_field fl) = [5]"
      by (simp add: legacy_cells_def shift_field_eq wh c11)
    then have "legacy_crc32 std_crc (shift_field fl) = 2724731650"
      by (simp add: legacy_crc32_cells std_crc_def crc32_std_values)
    finally show ?thesis .
  qed
  have hs: "legacy_hash_spec std_crc blank_game ''+'' = 3523407757 \<or>
            legacy_hash_spec std_crc blank_game ''+'' = 2768625435"
    using cf by (auto simp: legacy_hash_spec_def fl_def[symmetric] legacy_crc32_cells std_crc_def crc32_std_values)
  show ?thesis using l cg cf hg hs by (auto simp: fl_def)
qed

theorem legacy_hash_after_shift_witness:
  "\<exists>g. loadlevelfromfile std_crc blank_game ''+'' = (1, g, []) \<and> (0::int) \<le> 1 \<and>
     crc32_106 g =
       crc32_finish std_crc
         (fold (\<lambda>b crc. crc32_feed std_crc crc [b]) (legacy_cells g) (crc32_init std_crc))"
proof -
  obtain g where l: "loadlevelfromfile std_crc blank_game ''+'' = (1, g, [])"
    using loadlevelfromfile_plus by blast
  from legacy_hash_after_shift[OF l] l show ?thesis by simp
qed

subsection \<open>The one-row level of the scenario\<close>

lemma parse_row0:
  "fst (level_loop (load_init game ''@$.'')) = None"
  "ls_endoffile (snd (level_loop (load_init game ''@$.''))) = 1"
  "ls_leveldatastarted (snd (level_loop (load_init game ''@$.''))) = 1"
  "ls_memptr (snd (level_loop (load_init game ''@$.''))) = []"
  "field_width (ls_game (snd (level_loop (load_init game ''@$.'')))) = 3"
  "field_height (ls_game (snd (level_loop (load_init game ''@$.'')))) = 1"
  "positionx (ls_game (snd (level_loop (load_init game ''@$.'')))) = 0"
  "positiony (ls_game (snd (level_loop (load_init game ''@$.'')))) = 0"
  "field (ls_game (snd (level_loop (load_init game ''@$.'')))) 2 1 = 3"
  "field (ls_game (snd (level_loop (load_init game ''@$.'')))) 3 1 = 5"
  by (simp_all add: parse_eval flag_defs)

lemma sok_move_row0:
  assumes "positiony g < 1" "history s = Some h" "length h + 3 < historyallocsize s"
  shows "sok_move mem_ok g d v s = Some (- 1, g, s\<lparr>angle := fst (snd (snd (move_dir d)))\<rparr>)"
  using assms by (cases "move_dir d") (simp add: sok_move_def Let_def sok_history_getlen_def)

lemma level_row0:
  "\<exists>g. loadlevelfromfile lib game ''@$.'' = (1, g, []) \<and>
      field_width g = 3 \<and> field_height g = 1 \<and> positionx g = 0 \<and> positiony g = 0 \<and>
      field g 1 0 = field_floor OR field_atom \<and> field g 2 0 = field_floor OR field_goal \<and>
      sok_move mem_ok g sokmoveRIGHT 0 preview_states = Some (- 1, g, preview_states\<lparr>angle := 90\<rparr>)"
proof -
  define fl where "fl = level_flooded game ''@$.''"
  obtain e st where ll: "level_loop (load_init game ''@$.'') = (e, st)"
    by (cases "level_loop (load_init game ''@$.'')")
  then have "\<exists>g. loadlevelfromfile lib game ''@$.'' = (1, g, [])"
    using parse_row0[of game] by (simp add: loadlevelfromfile_def Let_def)
  then obtain g where l: "loadlevelfromfile lib game ''@$.'' = (1, g, [])" by blast
  note ff = level_flooded_from[of game "''@$.''", folded fl_def]
  note sel = flooded_from_sel[OF ff]
  have c: "field fl 2 1 = 3" "field fl 3 1 = 5"
    using flooded_from_keep[OF ff, of 2 1] flooded_from_keep[OF ff, of 3 1]
    by (simp_all add: parse_row0 field_floor_def)
  have g: "g = (shift_field fl)\<lparr>crc32_106 := legacy_crc32 lib (shift_field fl),
                 crc64 := level_crc64 lib (shift_field fl)\<rparr>"
    using loadlevelfromfile_ok(1)[OF l] by (simp add: fl_def)
  have p: "field_width g = 3" "field_height g = 1" "positionx g = 0" "positiony g = 0"
    "field g 1 0 = 3" "field g 2 0 = 5"
    by (subst g, simp add: shift_field_eq sel parse_row0 c)+
  have "sok_move mem_ok g sokmoveRIGHT 0 preview_states = Some (- 1, g, preview_states\<lparr>angle := 90\<rparr>)"
    using sok_move_row0[of g preview_states "[]" mem_ok sokmoveRIGHT 0] p(4)
    by (simp add: preview_states_def)
  then show ?thesis using l p by (simp add: flag_defs)
qed

text \<open>
  C3, amended. For every CRC library and every content of the allocated structure,
  parsing the block \<open>@$.\<close> gives a level of width 3 and height 1 with the player at
  \<open>(0, 0)\<close>, an atom at \<open>(1, 0)\<close> and a goal at \<open>(2, 0)\<close>, at the end of the buffer; on
  fresh states the authoritative move to the right is rejected, because the player is
  on row 0: \<open>sok_move\<close> returns \<open>-1\<close>, the level and the history are unchanged, and only
  the angle is set.
\<close>

theorem level_row0_move_rejected:
  "\<exists>g. loadlevelfromfile lib game ''@$.'' = (1, g, []) \<and>
      field_width g = 3 \<and> field_height g = 1 \<and> positionx g = 0 \<and> positiony g = 0 \<and>
      field g 1 0 AND field_atom \<noteq> 0 \<and> field g 2 0 AND field_goal \<noteq> 0 \<and>
      sok_move mem_ok g sokmoveRIGHT 0 preview_states = Some (- 1, g, preview_states\<lparr>angle := 90\<rparr>)"
proof -
  obtain g where g: "loadlevelfromfile lib game ''@$.'' = (1, g, [])"
      "field_width g = 3" "field_height g = 1" "positionx g = 0" "positiony g = 0"
      "field g 1 0 = field_floor OR field_atom" "field g 2 0 = field_floor OR field_goal"
      "sok_move mem_ok g sokmoveRIGHT 0 preview_states = Some (- 1, g, preview_states\<lparr>angle := 90\<rparr>)"
    using level_row0[of lib game mem_ok] by blast
  have "field g 1 0 AND field_atom \<noteq> 0" "field g 2 0 AND field_goal \<noteq> 0"
    by (simp_all add: g flag_defs)
  with g show ?thesis by blast
qed

theorem level_row0_move_rejected_witness:
  "\<exists>g. loadlevelfromfile std_crc blank_game ''@$.'' = (1, g, []) \<and>
      field_width g = 3 \<and> field_height g = 1 \<and>
      sok_move (\<lambda>_. True) g sokmoveRIGHT 0 preview_states =
        Some (- 1, g, preview_states\<lparr>angle := 90\<rparr>)"
  using level_row0_move_rejected[of std_crc blank_game "\<lambda>_. True"] by blast

text \<open>
  C3, as stated, fails: on the level parsed from \<open>@$.\<close> the authoritative move to the
  right returns \<open>-1\<close>, the player stays at column 0 and the history stays empty.
\<close>

theorem scenario_move_is_rejected:
  "fst (loadlevelfromfile std_crc blank_game ''@$.'') = 1 \<and>
   map_option (\<lambda>(r, g, s). (r, positionx g, history s))
     (sok_move (\<lambda>_. True) (fst (snd (loadlevelfromfile std_crc blank_game ''@$.'')))
        sokmoveRIGHT 0 preview_states) = Some (- 1, 0, Some [])"
proof -
  obtain g where g: "loadlevelfromfile std_crc blank_game ''@$.'' = (1, g, [])" "positionx g = 0"
      "sok_move (\<lambda>_. True) g sokmoveRIGHT 0 preview_states = Some (- 1, g, preview_states\<lparr>angle := 90\<rparr>)"
    using level_row0[of std_crc blank_game "\<lambda>_. True"] by blast
  then show ?thesis by (simp add: preview_states_def)
qed

text \<open>
  Under a row of walls the same row is played as the scenario describes: the move to
  the right pushes the atom onto the goal, reports the level solved and records \<open>R\<close>.
\<close>

lemma parse_row1:
  "fst (level_loop (load_init game walled_row1)) = None"
  "ls_endoffile (snd (level_loop (load_init game walled_row1))) = 1"
  "ls_leveldatastarted (snd (level_loop (load_init game walled_row1))) = 1"
  "ls_memptr (snd (level_loop (load_init game walled_row1))) = []"
  "field_width (ls_game (snd (level_loop (load_init game walled_row1)))) = 3"
  "field_height (ls_game (snd (level_loop (load_init game walled_row1)))) = 2"
  "positionx (ls_game (snd (level_loop (load_init game walled_row1)))) = 0"
  "positiony (ls_game (snd (level_loop (load_init game walled_row1)))) = 1"
  "field (ls_game (snd (level_loop (load_init game walled_row1)))) 1 1 = 9"
  "field (ls_game (snd (level_loop (load_init game walled_row1)))) 2 1 = 9"
  "field (ls_game (snd (level_loop (load_init game walled_row1)))) 3 1 = 9"
  "field (ls_game (snd (level_loop (load_init game walled_row1)))) 1 2 = 1"
  "field (ls_game (snd (level_loop (load_init game walled_row1)))) 2 2 = 3"
  "field (ls_game (snd (level_loop (load_init game walled_row1)))) 3 2 = 5"
  by (simp_all add: parse_eval flag_defs walled_row1_def)

lemma level_row1_push_solves:
  "\<exists>g g' s'. loadlevelfromfile lib game walled_row1 = (1, g, []) \<and>
      field_width g = 3 \<and> field_height g = 2 \<and> positionx g = 0 \<and> positiony g = 1 \<and>
      field g 1 1 = field_floor OR field_atom \<and> field g 2 1 = field_floor OR field_goal \<and>
      sok_move mem_ok g sokmoveRIGHT 0 preview_states =
        Some (sokmove_pushed OR sokmove_ongoal OR sokmove_solved, g', s') \<and>
      history s' = Some ''R'' \<and> positionx g' = 1 \<and> positiony g' = 1 \<and>
      field g' 2 1 = field_floor OR field_goal OR field_atom"
proof -
  define fl where "fl = level_flooded game walled_row1"
  obtain e st where ll: "level_loop (load_init game walled_row1) = (e, st)"
    by (cases "level_loop (load_init game walled_row1)")
  then have "\<exists>g. loadlevelfromfile lib game walled_row1 = (1, g, [])"
    using parse_row1[of game] by (simp add: loadlevelfromfile_def Let_def)
  then obtain g where l: "loadlevelfromfile lib game walled_row1 = (1, g, [])" by blast
  note ff = level_flooded_from[of game walled_row1, folded fl_def]
  note sel = flooded_from_sel[OF ff]
  have c: "field fl 1 1 = 9" "field fl 2 1 = 9" "field fl 3 1 = 9" "field fl 2 2 = 3" "field fl 3 2 = 5"
    using flooded_from_keep[OF ff, of 1 1] flooded_from_keep[OF ff, of 2 1]
      flooded_from_keep[OF ff, of 3 1] flooded_from_keep[OF ff, of 2 2] flooded_from_keep[OF ff, of 3 2]
    by (simp_all add: parse_row1 field_floor_def)
  have c12: "field fl 1 2 = 0 \<or> field fl 1 2 = 1"
    using ff parse_row1(12)[of game] unfolding flooded_from_def by metis
  have g: "g = (shift_field fl)\<lparr>crc32_106 := legacy_crc32 lib (shift_field fl),
                 crc64 := level_crc64 lib (shift_field fl)\<rparr>"
    using loadlevelfromfile_ok(1)[OF l] by (simp add: fl_def)
  have p: "field_width g = 3" "field_height g = 2" "positionx g = 0" "positiony g = 1"
    "field g 0 0 = 9" "field g 1 0 = 9" "field g 2 0 = 9" "field g 1 1 = 3" "field g 2 1 = 5"
    by (subst g, simp add: shift_field_eq sel parse_row1 c)+
  have p01: "field g 0 1 = 0 \<or> field g 0 1 = 1"
    using c12 by (subst g, simp add: shift_field_eq)+
  have "\<exists>g' s'. sok_move mem_ok g sokmoveRIGHT 0 preview_states = Some (7, g', s') \<and>
      history s' = Some ''R'' \<and> positionx g' = 1 \<and> positiony g' = 1 \<and> field g' 2 1 = 7"
    using p01 by (auto simp: move_eval p preview_states_def)
  then show ?thesis using l p by (auto simp: flag_defs res_defs)
qed

subsection \<open>Too many levels in a set\<close>

lemma dom_sok_freegame: "dom (sok_freegame store game) = dom store - set_option game"
  by (cases game) (auto simp: sok_freegame_def)

lemma dom_sok_freefile:
  "dom (sok_freefile store gl n) = dom store - {a. \<exists>i<n. gl i = Some a}"
proof (induction n)
  case 0
  then show ?case by (simp add: sok_freefile_def)
next
  case (Suc n)
  have "sok_freefile store gl (Suc n) = sok_freegame (sok_freefile store gl n) (gl n)"
    by (simp add: sok_freefile_def)
  then show ?case using Suc
    by (auto simp: dom_sok_freegame less_Suc_eq)
qed

lemma loadfile_loop_store:
  assumes "loadfile_loop env maxlevels lev nalloc mem gl store = (errflag, lev', gl', store', game')"
    and "maxlevels \<le> 65535"
    and "\<forall>a y. store a = Some y \<longrightarrow> (\<exists>i<lev. gl i = Some a)"
  shows "\<forall>a y. store' a = Some y \<longrightarrow> (\<exists>i<lev'. gl' i = Some a) \<or> game' = Some a"
  using assms
proof (induction env maxlevels lev nalloc mem gl store rule: loadfile_loop.induct)
  case (1 env maxlevels lev nalloc mem gamelist store)
  show ?case
  proof (cases "env_newgame env nalloc")
    case None
    then show ?thesis using "1.prems"
      by (subst (asm) loadfile_loop.simps) auto
  next
    case (Some fresh)
    obtain rc game m where l: "loadlevelfromfile (env_crc env) fresh mem = (rc, game, m)"
      by (cases "loadlevelfromfile (env_crc env) fresh mem")
    show ?thesis
    proof (cases "rc < 0 \<or> int lev \<ge> maxlevels")
      case True
      then show ?thesis using "1.prems" Some l
        by (subst (asm) loadfile_loop.simps) (fastforce split: if_splits)
    next
      case False
      then have lev: "lev < 65535" using "1.prems"(2) by simp
      then have n: "(lev + 1) mod 65536 = lev + 1" by simp
      define game2 where "game2 = game\<lparr>level := (lev + 1) mod 65536,
                                solution := solution_load (env_mem_ok env)
                                              (env_solfile env (crc64 game))\<rparr>"
      have inv: "\<forall>a y. (store(nalloc \<mapsto> game2)) a = Some y \<longrightarrow>
                   (\<exists>i<lev + 1. (gamelist(lev \<mapsto> nalloc)) i = Some a)"
        using "1.prems"(3) by (auto simp: less_Suc_eq)
      show ?thesis
      proof (cases "rc \<noteq> 0")
        case True
        then show ?thesis using "1.prems"(1) Some l False inv n
          by (subst (asm) loadfile_loop.simps) (auto simp: Let_def game2_def)
      next
        case F2: False
        have rec: "loadfile_loop env maxlevels (lev + 1) (nalloc + 1) m (gamelist(lev \<mapsto> nalloc))
                 (store(nalloc \<mapsto> game2)) = (errflag, lev', gl', store', game')"
          using "1.prems"(1) Some l False F2 n
          by (subst (asm) loadfile_loop.simps) (auto simp: Let_def game2_def)
        show ?thesis
          by (rule "1.IH"[OF Some l[symmetric]])
             (use False F2 rec inv n "1.prems"(2) in \<open>auto simp: game2_def fun_upd_def\<close>)
      qed
    qed
  qed
qed


lemma sok_loadfile_error_frees:
  assumes "sok_loadfile env gl maxlevels buf = (ret, gl', store')" "ret < 0" "maxlevels \<le> 65535"
  shows "store' = Map.empty"
proof (cases "\<exists>mem. buf = Some mem \<and> length mem \<noteq> 0 \<and>
                (if isGz mem then env_ungz env mem else Some mem) \<noteq> None")
  case False
  then show ?thesis using assms(1)
    by (auto simp: sok_loadfile_def split: option.splits if_splits)
next
  case True
  then obtain mem0 mem where b: "buf = Some mem0" "length mem0 \<noteq> 0"
    "(if isGz mem0 then env_ungz env mem0 else Some mem0) = Some mem" by auto
  obtain errflag lev gl1 store1 game1 where
    l: "loadfile_loop env maxlevels 0 0 mem gl Map.empty = (errflag, lev, gl1, store1, game1)"
    by (cases "loadfile_loop env maxlevels 0 0 mem gl Map.empty") auto
  have inv: "\<forall>a y. store1 a = Some y \<longrightarrow> (\<exists>i<lev. gl1 i = Some a) \<or> game1 = Some a"
    by (rule loadfile_loop_store[OF l assms(3)]) simp
  have r: "errflag < 0" "store' = sok_freefile (sok_freegame store1 game1) gl1 lev"
    using assms(1,2) b l by (auto simp: sok_loadfile_def Let_def split: if_splits)
  have "dom store' = {}"
    unfolding r(2) dom_sok_freefile dom_sok_freegame using inv by auto
  then show ?thesis by simp
qed

lemma loadfile_loop_too_many:
  assumes "env_newgame env nalloc = Some fresh"
    and "loadlevelfromfile (env_crc env) fresh mem = (rc, g, mem')"
    and "0 \<le> rc" and "maxlevels \<le> int lev"
  shows "loadfile_loop env maxlevels lev nalloc mem gl store =
           (ERR_TOO_MANY_LEVELS_IN_SET, lev, gl, store(nalloc \<mapsto> g), Some nalloc)"
  using assms by (subst loadfile_loop.simps) simp

lemma loadfile_loop_parses_level_at:
  assumes "parses_level_at env k nalloc mem" and "nat maxlevels = lev + k" and "maxlevels \<le> 65535"
  shows "\<exists>store'. loadfile_loop env maxlevels lev nalloc mem gl store =
           (ERR_TOO_MANY_LEVELS_IN_SET, lev + k,
            (\<lambda>i. if lev \<le> i \<and> i < lev + k then Some (nalloc + (i - lev)) else gl i),
            store', Some (nalloc + k))"
  using assms
proof (induction k arbitrary: lev nalloc mem gl store)
  case 0
  then obtain fresh where f: "env_newgame env nalloc = Some fresh"
    and rc: "0 \<le> fst (loadlevelfromfile (env_crc env) fresh mem)"
    by (auto split: option.splits)
  obtain rc g mem' where l: "loadlevelfromfile (env_crc env) fresh mem = (rc, g, mem')"
    by (cases "loadlevelfromfile (env_crc env) fresh mem")
  have "maxlevels \<le> int lev" using "0.prems"(2) by simp
  moreover have "(\<lambda>i. if lev \<le> i \<and> i < lev + 0 then Some (nalloc + (i - lev)) else gl i) = gl"
    by (auto simp: fun_eq_iff)
  ultimately show ?case
    using loadfile_loop_too_many[OF f l, of maxlevels lev gl store] rc l by simp
next
  case (Suc k)
  then obtain fresh where f: "env_newgame env nalloc = Some fresh"
    by (auto split: option.splits)
  obtain rc g mem' where l: "loadlevelfromfile (env_crc env) fresh mem = (rc, g, mem')"
    by (cases "loadlevelfromfile (env_crc env) fresh mem")
  have rc: "rc = 0" and p: "parses_level_at env k (nalloc + 1) mem'"
    using Suc.prems(1) f l by simp_all
  have lev: "int lev < maxlevels" "lev < 65535" using Suc.prems(2,3) by auto
  then have n: "(lev + 1) mod 65536 = lev + 1" by simp
  define game2 where "game2 = g\<lparr>level := (lev + 1) mod 65536,
      solution := solution_load (env_mem_ok env) (env_solfile env (crc64 g))\<rparr>"
  have m: "nat maxlevels = (lev + 1) + k" using Suc.prems(2) by simp
  obtain store' where rec: "loadfile_loop env maxlevels (lev + 1) (nalloc + 1) mem' (gl(lev \<mapsto> nalloc))
        (store(nalloc \<mapsto> game2)) =
           (ERR_TOO_MANY_LEVELS_IN_SET, (lev + 1) + k,
            (\<lambda>i. if lev + 1 \<le> i \<and> i < (lev + 1) + k then Some ((nalloc + 1) + (i - (lev + 1)))
                  else (gl(lev \<mapsto> nalloc)) i),
            store', Some ((nalloc + 1) + k))"
    using Suc.IH[OF p m Suc.prems(3), of "gl(lev \<mapsto> nalloc)" "store(nalloc \<mapsto> game2)"] by blast
  have gl: "(\<lambda>i. if lev + 1 \<le> i \<and> i < (lev + 1) + k then Some ((nalloc + 1) + (i - (lev + 1)))
                  else (gl(lev \<mapsto> nalloc)) i) =
            (\<lambda>i. if lev \<le> i \<and> i < lev + Suc k then Some (nalloc + (i - lev)) else gl i)"
    by (auto simp: fun_eq_iff)
  have "loadfile_loop env maxlevels lev nalloc mem gl store =
        loadfile_loop env maxlevels (lev + 1) (nalloc + 1) mem' (gl(lev \<mapsto> nalloc))
          (store(nalloc \<mapsto> game2))"
    using f l rc lev n by (subst loadfile_loop.simps) (simp add: Let_def game2_def)
  then show ?case using rec gl by simp
qed

text \<open>
  C7, amended. When the loop of \<open>sok_loadfile\<close> parses a level at the index \<open>maxlevels\<close>
  (at index 0 when \<open>maxlevels\<close> is negative), \<open>maxlevels\<close> being within the range of the
  \<open>unsigned short\<close> counter, \<open>sok_loadfile\<close> returns \<open>ERR_TOO_MANY_LEVELS_IN_SET\<close> and no
  level: every level structure it allocated has been freed, and the first \<open>maxlevels\<close>
  entries of the caller's array hold the addresses of the freed structures.
\<close>

theorem too_many_levels_freed:
  assumes "buf = Some mem0" and "mem0 \<noteq> []"
    and "(if isGz mem0 then env_ungz env mem0 else Some mem0) = Some mem"
    and "maxlevels \<le> 65535"
    and "parses_level_at env (nat maxlevels) 0 mem"
  shows "sok_loadfile env gl maxlevels buf =
           (ERR_TOO_MANY_LEVELS_IN_SET,
            (\<lambda>i. if i < nat maxlevels then Some i else gl i), Map.empty)"
proof -
  obtain store1 where l: "loadfile_loop env maxlevels 0 0 mem gl Map.empty =
           (ERR_TOO_MANY_LEVELS_IN_SET, nat maxlevels,
            (\<lambda>i. if i < nat maxlevels then Some i else gl i), store1, Some (nat maxlevels))"
  proof -
    have "(\<lambda>i. if 0 \<le> i \<and> i < 0 + nat maxlevels then Some (0 + (i - 0)) else gl i) =
          (\<lambda>i. if i < nat maxlevels then Some i else gl i)"
      by (simp cong: if_cong)
    then show ?thesis
      using that loadfile_loop_parses_level_at[OF assms(5) _ assms(4), of 0 gl Map.empty]
      by auto
  qed
  obtain ret gl' store' where r: "sok_loadfile env gl maxlevels buf = (ret, gl', store')"
    by (cases "sok_loadfile env gl maxlevels buf")
  have "ret = ERR_TOO_MANY_LEVELS_IN_SET \<and> gl' = (\<lambda>i. if i < nat maxlevels then Some i else gl i)"
    using r assms(1,2,3) l
    by (auto simp: sok_loadfile_def Let_def ERR_TOO_MANY_LEVELS_IN_SET_def split: if_splits)
  moreover have "store' = Map.empty"
    using sok_loadfile_error_frees[OF r _ assms(4)] calculation
    by (simp add: ERR_TOO_MANY_LEVELS_IN_SET_def)
  ultimately show ?thesis using r by simp
qed

lemma parse_two_levels:
  "fst (level_loop (load_init game two_levels)) = None"
  "ls_endoffile (snd (level_loop (load_init game two_levels))) = 0"
  "ls_leveldatastarted (snd (level_loop (load_init game two_levels))) = - 1"
  "ls_memptr (snd (level_loop (load_init game two_levels))) = ''@$.''"
  "field_width (ls_game (snd (level_loop (load_init game two_levels)))) = 3"
  "field_height (ls_game (snd (level_loop (load_init game two_levels)))) = 1"
  "positionx (ls_game (snd (level_loop (load_init game two_levels)))) = 0"
  by (simp_all add: parse_eval two_levels_def)

lemma load_two_levels: "\<exists>g. loadlevelfromfile lib game two_levels = (0, g, ''@$.'')"
proof -
  obtain e st where ll: "level_loop (load_init game two_levels) = (e, st)"
    by (cases "level_loop (load_init game two_levels)")
  then show ?thesis
    using parse_two_levels[of game] by (simp add: loadlevelfromfile_def Let_def)
qed

lemma sok_loadfile_two_levels:
  "sok_loadfile std_env Map.empty 1 (Some two_levels) =
     (ERR_TOO_MANY_LEVELS_IN_SET, Map.empty(0 \<mapsto> 0), Map.empty)"
proof -
  obtain g1 where g1: "loadlevelfromfile std_crc blank_game two_levels = (0, g1, ''@$.'')"
    using load_two_levels by blast
  obtain g2 where g2: "loadlevelfromfile std_crc blank_game ''@$.'' = (1, g2, [])"
    using level_row0[of std_crc blank_game "\<lambda>_. True"] by blast
  define g1' where "g1' = g1\<lparr>level := (0 + 1) mod 65536,
      solution := solution_load (env_mem_ok std_env) (env_solfile std_env (crc64 g1))\<rparr>"
  have e: "env_newgame std_env n = Some blank_game" "env_crc std_env = std_crc" for n
    by (simp_all add: std_env_def)
  have step2: "loadfile_loop std_env 1 1 1 ''@$.'' (Map.empty(0 \<mapsto> 0)) (Map.empty(0 \<mapsto> g1')) =
      (ERR_TOO_MANY_LEVELS_IN_SET, 1, Map.empty(0 \<mapsto> 0), (Map.empty(0 \<mapsto> g1'))(1 \<mapsto> g2), Some 1)"
    using loadfile_loop_too_many[of std_env 1 blank_game "''@$.''" 1 g2 "[]" 1 1
            "Map.empty(0 \<mapsto> 0)" "Map.empty(0 \<mapsto> g1')"] e g2
    by simp
  have step1: "loadfile_loop std_env 1 0 0 two_levels Map.empty Map.empty =
      (ERR_TOO_MANY_LEVELS_IN_SET, 1, Map.empty(0 \<mapsto> 0), (Map.empty(0 \<mapsto> g1'))(1 \<mapsto> g2), Some 1)"
    by (subst loadfile_loop.simps) (simp add: e g1 Let_def step2[unfolded g1'_def, simplified] g1'_def)
  have gz: "\<not> isGz two_levels" by (simp add: isGz_def two_levels_def ch_def)
  show ?thesis
    using gz step1
    by (simp add: sok_loadfile_def two_levels_def[THEN arg_cong, of length] sok_freefile_def
          sok_freegame_def ERR_TOO_MANY_LEVELS_IN_SET_def)
qed

theorem too_many_levels_freed_witness:
  "two_levels \<noteq> [] \<and> \<not> isGz two_levels \<and> (1::int) \<le> 65535 \<and>
   parses_level_at std_env (nat 1) 0 two_levels \<and>
   sok_loadfile std_env Map.empty 1 (Some two_levels) =
     (ERR_TOO_MANY_LEVELS_IN_SET, (\<lambda>i. if i < nat 1 then Some i else None), Map.empty)"
proof -
  obtain g1 where g1: "loadlevelfromfile std_crc blank_game two_levels = (0, g1, ''@$.'')"
    using load_two_levels by blast
  obtain g2 where g2: "loadlevelfromfile std_crc blank_game ''@$.'' = (1, g2, [])"
    using level_row0[of std_crc blank_game "\<lambda>_. True"] by blast
  have e: "env_newgame std_env n = Some blank_game" "env_crc std_env = std_crc" for n
    by (simp_all add: std_env_def)
  have gz: "\<not> isGz two_levels" by (simp add: isGz_def two_levels_def ch_def)
  have ne: "two_levels \<noteq> []" by (simp add: two_levels_def)
  have p: "parses_level_at std_env (nat 1) 0 two_levels"
    by (simp add: e g1 g2)
  from too_many_levels_freed[of "Some two_levels" two_levels std_env two_levels 1 Map.empty]
       gz ne p
  show ?thesis by simp
qed

text \<open>
  C7, as stated, fails on a buffer of two levels with \<open>maxlevels = 1\<close>: \<open>sok_loadfile\<close>
  returns \<open>ERR_TOO_MANY_LEVELS_IN_SET\<close>, the first level's address is in
  \<open>gamelist[0]\<close>, and the structure at that address has been freed.
\<close>

theorem parsed_levels_freed:
  "fst (sok_loadfile std_env Map.empty 1 (Some two_levels)) = ERR_TOO_MANY_LEVELS_IN_SET \<and>
   fst (snd (sok_loadfile std_env Map.empty 1 (Some two_levels))) 0 = Some 0 \<and>
   snd (snd (sok_loadfile std_env Map.empty 1 (Some two_levels))) 0 = None"
  by (simp add: sok_loadfile_two_levels)

end
